theory Spec2Isabelle
  imports Main
begin

section \<open>Text as the interpreter sees it\<close>

text \<open>
  The program is \<^verbatim>\<open>src/streamlit_app.py\<close>. A text is a \<^typ>\<open>string\<close>; a character is
  read as a code point below 256, and the character classes below are the ones Python's
  \<^verbatim>\<open>str\<close> methods and its \<^verbatim>\<open>re\<close> module use on that range.
\<close>

abbreviation NL :: char where "NL \<equiv> CHR 0x0A"

definition ord :: "char \<Rightarrow> nat" where
  "ord c = of_char c"

text \<open>\<^verbatim>\<open>str.isspace\<close>, \<^verbatim>\<open>str.strip()\<close> and the class \<^verbatim>\<open>\s\<close>.\<close>

definition is_space :: "char \<Rightarrow> bool" where
  "is_space c = (c \<in> set [CHR 0x09, CHR 0x0A, CHR 0x0B, CHR 0x0C, CHR 0x0D, CHR 0x1C, CHR 0x1D,
                           CHR 0x1E, CHR 0x1F, CHR 0x20, CHR 0x85, CHR 0xA0])"

text \<open>The class \<^verbatim>\<open>\d\<close>.\<close>

definition is_digit :: "char \<Rightarrow> bool" where
  "is_digit c = (c \<in> set ''0123456789'')"

text \<open>The class \<^verbatim>\<open>\w\<close>: alphanumeric characters and the underscore.\<close>

definition is_word :: "char \<Rightarrow> bool" where
  "is_word c = (let n = ord c in
     (48 \<le> n \<and> n \<le> 57) \<or> (65 \<le> n \<and> n \<le> 90) \<or> n = 95 \<or> (97 \<le> n \<and> n \<le> 122) \<or>
     n \<in> {170, 178, 179, 181, 185, 186, 188, 189, 190} \<or>
     (192 \<le> n \<and> n \<le> 214) \<or> (216 \<le> n \<and> n \<le> 246) \<or> (248 \<le> n \<and> n \<le> 255))"

text \<open>\<^verbatim>\<open>str.lower()\<close>, one character at a time.\<close>

definition lower_chr :: "char \<Rightarrow> char" where
  "lower_chr c = (let n = ord c in
     if (65 \<le> n \<and> n \<le> 90) \<or> (192 \<le> n \<and> n \<le> 222 \<and> n \<noteq> 215) then char_of (n + 32) else c)"

definition lower :: "string \<Rightarrow> string" where
  "lower s = map lower_chr s"

definition strip :: "string \<Rightarrow> string" where
  "strip s = rev (dropWhile is_space (rev (dropWhile is_space s)))"

text \<open>The slice \<^verbatim>\<open>s[a:b]\<close> for indices within the text; it is empty when \<open>b \<le> a\<close>.\<close>

definition slice :: "nat \<Rightarrow> nat \<Rightarrow> string \<Rightarrow> string" where
  "slice a b s = (if b \<le> a then [] else take (b - a) (drop a s))"

text \<open>\<^verbatim>\<open>s.split('\n')\<close>: the result is never empty.\<close>

fun split_nl :: "string \<Rightarrow> string list" where
  "split_nl [] = [[]]"
| "split_nl (c # cs) =
     (if c = NL then [] # split_nl cs
      else (case split_nl cs of l # ls \<Rightarrow> (c # l) # ls | [] \<Rightarrow> [[c]]))"

text \<open>The test \<^verbatim>\<open>a in b\<close> on two texts.\<close>

fun starts_with :: "string \<Rightarrow> string \<Rightarrow> bool" where
  "starts_with [] s = True"
| "starts_with (a # as) [] = False"
| "starts_with (a # as) (c # cs) = (a = c \<and> starts_with as cs)"

fun is_substring :: "string \<Rightarrow> string \<Rightarrow> bool" where
  "is_substring a [] = (a = [])"
| "is_substring a (c # cs) = (starts_with a (c # cs) \<or> is_substring a cs)"

text \<open>The decimal text of a number, as an f-string writes it.\<close>

definition digit_chr :: "nat \<Rightarrow> char" where
  "digit_chr d = char_of (48 + d)"

fun str_of_nat :: "nat \<Rightarrow> string" where
  "str_of_nat n = (if n < 10 then [digit_chr n] else str_of_nat (n div 10) @ [digit_chr (n mod 10)])"

datatype py_error = IndexError | ValueError

text \<open>
  \<^verbatim>\<open>int(s)\<close>. The program applies it only to text matched by \<^verbatim>\<open>\d+\<close>; the model
  covers nonempty digit strings and reports everything else as \<open>ValueError\<close>. Python's
  integers are unbounded, as \<^typ>\<open>nat\<close> is, but the interpreter refuses to convert a text
  of more than \<^verbatim>\<open>sys.int_max_str_digits\<close> digits, leading zeros counted, and raises
  \<open>ValueError\<close>; the limit is 4300 unless it is configured otherwise.
\<close>

definition int_max_str_digits :: nat where
  "int_max_str_digits = 4300"

definition py_int :: "string \<Rightarrow> py_error + nat" where
  "py_int s = (if s \<noteq> [] \<and> list_all is_digit s \<and> length s \<le> int_max_str_digits
               then Inr (foldl (\<lambda>acc c. 10 * acc + (ord c - 48)) 0 s)
               else Inl ValueError)"

section \<open>Regular expressions\<close>

text \<open>
  The patterns of the program are sequences of four kinds of item: a greedy repetition
  \<^verbatim>\<open>a{lo,hi}\<close> of a one-character atom, an alternation of literal words, the boundary
  of a capture group, and \<^verbatim>\<open>$\<close>.
\<close>

datatype atom = Ch char | Digit | Space | Word

datatype item = Rep atom nat "nat option" | Alt "string list" | Mark | Eos

abbreviation One :: "atom \<Rightarrow> item" where
  "One a \<equiv> Rep a 1 (Some 1)"

abbreviation Star :: "atom \<Rightarrow> item" where
  "Star a \<equiv> Rep a 0 None"

abbreviation Plus :: "atom \<Rightarrow> item" where
  "Plus a \<equiv> Rep a 1 None"

definition lits :: "string \<Rightarrow> item list" where
  "lits s = map (\<lambda>c. One (Ch c)) s"

text \<open>The flag \<open>ic\<close> is \<^verbatim>\<open>re.IGNORECASE\<close>: both characters are compared in lower case.\<close>

fun atom_ok :: "bool \<Rightarrow> atom \<Rightarrow> char \<Rightarrow> bool" where
  "atom_ok ic (Ch a) c = (if ic then lower_chr c = lower_chr a else c = a)"
| "atom_ok ic Digit c = is_digit c"
| "atom_ok ic Space c = is_space c"
| "atom_ok ic Word c = is_word c"

fun lit_prefix :: "bool \<Rightarrow> string \<Rightarrow> string \<Rightarrow> bool" where
  "lit_prefix ic [] s = True"
| "lit_prefix ic (a # as) [] = False"
| "lit_prefix ic (a # as) (c # cs) = (atom_ok ic (Ch a) c \<and> lit_prefix ic as cs)"

text \<open>
  The backtracking matcher: \<open>mt ic r s p ms\<close> matches the items \<open>r\<close> at the head of the
  remaining text \<open>s\<close>, which begins at position \<open>p\<close>; \<open>ms\<close> are the group boundaries
  passed so far. A repetition is greedy: it takes one more character whenever it may and
  goes on with the rest of the pattern only where that fails, so the longest run is tried
  first and characters are given back one at a time. An alternation tries its words from
  left to right. The result is the end position and the group boundaries of the first way
  to match.
\<close>

function (sequential) mt :: "bool \<Rightarrow> item list \<Rightarrow> string \<Rightarrow> nat \<Rightarrow> nat list
                               \<Rightarrow> (nat \<times> nat list) option" where
  "mt ic [] s p ms = Some (p, ms)"
| "mt ic (Mark # r) s p ms = mt ic r s p (ms @ [p])"
| "mt ic (Eos # r) s p ms = (if s = [] \<or> s = [NL] then mt ic r s p ms else None)"
| "mt ic (Alt [] # r) s p ms = None"
| "mt ic (Alt (w # ws) # r) s p ms =
     (case (if lit_prefix ic w s then mt ic r (drop (length w) s) (p + length w) ms else None) of
        Some x \<Rightarrow> Some x
      | None \<Rightarrow> mt ic (Alt ws # r) s p ms)"
| "mt ic (Rep a lo hi # r) [] p ms = (if lo = 0 then mt ic r [] p ms else None)"
| "mt ic (Rep a lo hi # r) (c # cs) p ms =
     (if hi \<noteq> Some 0 \<and> atom_ok ic a c
      then (case mt ic (Rep a (lo - 1) (map_option (\<lambda>h. h - 1) hi) # r) cs (Suc p) ms of
              Some x \<Rightarrow> Some x
            | None \<Rightarrow> if lo = 0 then mt ic r (c # cs) p ms else None)
      else if lo = 0 then mt ic r (c # cs) p ms else None)"
  by pat_completeness auto
termination
  by (relation "measures [\<lambda>(ic, r, s, p, ms). length r,
                          \<lambda>(ic, r, s, p, ms). (case r of Alt ws # r' \<Rightarrow> length ws | _ \<Rightarrow> 0),
                          \<lambda>(ic, r, s, p, ms). length s]") auto

text \<open>A match object: where the match starts, where it ends, and its group boundaries.\<close>

record rmatch =
  m_start :: nat
  m_end :: nat
  m_marks :: "nat list"

definition match_at :: "bool \<Rightarrow> item list \<Rightarrow> string \<Rightarrow> nat \<Rightarrow> rmatch option" where
  "match_at ic r s p = (case mt ic r s p [] of
      None \<Rightarrow> None
    | Some (e, ms) \<Rightarrow> Some \<lparr>m_start = p, m_end = e, m_marks = ms\<rparr>)"

text \<open>\<^verbatim>\<open>re.search\<close>: the match at the leftmost position that has one.\<close>

fun search_from :: "bool \<Rightarrow> item list \<Rightarrow> string \<Rightarrow> nat \<Rightarrow> rmatch option" where
  "search_from ic r [] p = match_at ic r [] p"
| "search_from ic r (c # cs) p = (case match_at ic r (c # cs) p of
      Some m \<Rightarrow> Some m
    | None \<Rightarrow> search_from ic r cs (Suc p))"

definition re_search :: "bool \<Rightarrow> item list \<Rightarrow> string \<Rightarrow> rmatch option" where
  "re_search ic r s = search_from ic r s 0"

text \<open>
  \<^verbatim>\<open>re.finditer\<close>: the matches from left to right, none overlapping an earlier one.
  \<open>k\<close> counts the characters still covered by the last match. The model is for patterns
  that do not match the empty text, as the ones iterated here (\<open>iterated_patterns_consume\<close>
  below).
\<close>

fun finditer_from :: "bool \<Rightarrow> item list \<Rightarrow> string \<Rightarrow> nat \<Rightarrow> nat \<Rightarrow> rmatch list" where
  "finditer_from ic r [] p k =
     (if k = 0 then (case match_at ic r [] p of Some m \<Rightarrow> [m] | None \<Rightarrow> []) else [])"
| "finditer_from ic r (c # cs) p k =
     (if 0 < k then finditer_from ic r cs (Suc p) (k - 1)
      else (case match_at ic r (c # cs) p of
              None \<Rightarrow> finditer_from ic r cs (Suc p) 0
            | Some m \<Rightarrow> m # finditer_from ic r cs (Suc p) (m_end m - p - 1)))"

definition re_finditer :: "bool \<Rightarrow> item list \<Rightarrow> string \<Rightarrow> rmatch list" where
  "re_finditer ic r s = finditer_from ic r s 0 0"

text \<open>\<^verbatim>\<open>re.sub\<close> with a constant replacement.\<close>

fun sub_from :: "bool \<Rightarrow> item list \<Rightarrow> string \<Rightarrow> string \<Rightarrow> nat \<Rightarrow> string" where
  "sub_from ic r repl [] k =
     (if k = 0 then (case match_at ic r [] 0 of Some m \<Rightarrow> repl | None \<Rightarrow> []) else [])"
| "sub_from ic r repl (c # cs) k =
     (if 0 < k then sub_from ic r repl cs (k - 1)
      else (case match_at ic r (c # cs) 0 of
              None \<Rightarrow> c # sub_from ic r repl cs 0
            | Some m \<Rightarrow> if m_end m = 0 then repl @ c # sub_from ic r repl cs 0
                        else repl @ sub_from ic r repl cs (m_end m - 1)))"

definition re_sub :: "bool \<Rightarrow> item list \<Rightarrow> string \<Rightarrow> string \<Rightarrow> string" where
  "re_sub ic r repl s = sub_from ic r repl s 0"

text \<open>\<^verbatim>\<open>m.groups()\<close> and \<^verbatim>\<open>m.group(k)\<close>; a group the pattern does not have is an \<open>IndexError\<close>.\<close>

fun spans :: "nat list \<Rightarrow> (nat \<times> nat) list" where
  "spans (a # b # ms) = (a, b) # spans ms"
| "spans ms = []"

definition re_groups :: "string \<Rightarrow> rmatch \<Rightarrow> string list" where
  "re_groups s m = map (\<lambda>(a, b). slice a b s) (spans (m_marks m))"

definition re_group :: "string \<Rightarrow> rmatch \<Rightarrow> nat \<Rightarrow> py_error + string" where
  "re_group s m k = (if 1 \<le> k \<and> k \<le> length (re_groups s m)
                     then Inr (re_groups s m ! (k - 1)) else Inl IndexError)"

section \<open>The extracted data\<close>

text \<open>
  An entry of \<^verbatim>\<open>question_positions\<close>. Its key \<^verbatim>\<open>"page"\<close> is the field \<open>page_num\<close>;
  its key \<^verbatim>\<open>"match"\<close> is never read again and is left out.
\<close>

record qpos =
  number :: nat
  start :: nat
  page_num :: nat

text \<open>An entry of \<^verbatim>\<open>questions_data\<close>.\<close>

record question =
  question_number :: nat
  question_preview :: string
  complete_content :: string
  marks :: string
  "chapter" :: "string option"
  year :: string
  page :: nat

section \<open>Reading the pages\<close>

text \<open>
  The document is the list of what \<^verbatim>\<open>page.extract_text()\<close> returns for each page, \<open>None\<close>
  included. \<^verbatim>\<open>page_breaks\<close> is a dictionary: an association list in insertion order,
  where storing under a key that is present keeps the key's place.
\<close>

fun dict_set :: "('k \<times> 'v) list \<Rightarrow> 'k \<Rightarrow> 'v \<Rightarrow> ('k \<times> 'v) list" where
  "dict_set [] k v = [(k, v)]"
| "dict_set ((k', v') # d) k v = (if k' = k then (k, v) # d else (k', v') # dict_set d k v)"

definition page_marker :: "nat \<Rightarrow> string" where
  "page_marker n = NL # ''--- PAGE '' @ str_of_nat n @ '' ---'' @ [NL]"

fun read_pages :: "string option list \<Rightarrow> nat \<Rightarrow> string \<Rightarrow> (nat \<times> nat) list
                     \<Rightarrow> string \<times> (nat \<times> nat) list" where
  "read_pages [] n all_text page_breaks = (all_text, page_breaks)"
| "read_pages (text # pages) n all_text page_breaks =
     (case text of
        None \<Rightarrow> read_pages pages (Suc n) all_text page_breaks
      | Some t \<Rightarrow>
          if t = [] then read_pages pages (Suc n) all_text page_breaks
          else read_pages pages (Suc n) (all_text @ page_marker n @ t)
                 (dict_set page_breaks (length all_text) n))"

section \<open>The year\<close>

text \<open>
  The four patterns end alike, in the group \<^verbatim>\<open>(20\d{2})\<close>; \<open>dmy_head\<close> is what comes
  before it in \<^verbatim>\<open>(\d{1,2})\s*(?:st|nd|rd|th)\s+\w+\s+(20\d{2})\<close>, and \<open>label_head w\<close> in
  \<^verbatim>\<open>Year\s*:?\s*(20\d{2})\<close> and \<^verbatim>\<open>Session\s*:?\s*(20\d{2})\<close>.
\<close>

definition year_tail :: "item list" where
  "year_tail = [Mark, One (Ch CHR ''2''), One (Ch CHR ''0''), Rep Digit 2 (Some 2), Mark]"

definition dmy_head :: "item list" where
  "dmy_head = [Mark, Rep Digit 1 (Some 2), Mark, Star Space, Alt [''st'', ''nd'', ''rd'', ''th''],
               Plus Space, Plus Word, Plus Space]"

definition label_head :: "string \<Rightarrow> item list" where
  "label_head w = lits w @ [Star Space, Rep (Ch CHR '':'') 0 (Some 1), Star Space]"

text \<open>
  Each pattern with its source text, which the loop inspects; \<open>BS\<close> is the backslash.
\<close>

abbreviation BS :: char where "BS \<equiv> CHR 0x5C"

definition year_patterns :: "(string \<times> item list) list" where
  "year_patterns =
    [(''('' @ BS # ''d{1,2})'' @ BS # ''s*(?:st|nd|rd|th)'' @ BS # ''s+'' @ BS # ''w+'' @ BS #
        ''s+(20'' @ BS # ''d{2})'',
      dmy_head @ year_tail),
     (''(20'' @ BS # ''d{2})'',
      year_tail),
     (''Year'' @ BS # ''s*:?'' @ BS # ''s*(20'' @ BS # ''d{2})'',
      label_head ''Year'' @ year_tail),
     (''Session'' @ BS # ''s*:?'' @ BS # ''s*(20'' @ BS # ''d{2})'',
      label_head ''Session'' @ year_tail)]"

text \<open>The loop over the patterns; it stops at the first pattern that matches.\<close>

fun infer_year :: "(string \<times> item list) list \<Rightarrow> string \<Rightarrow> py_error + string option" where
  "infer_year [] all_text = Inr None"
| "infer_year ((src, pattern) # rest) all_text =
     (case re_search True pattern all_text of
        None \<Rightarrow> infer_year rest all_text
      | Some year_match \<Rightarrow>
          if is_substring ''st|nd|rd|th'' src
          then (case re_group all_text year_match 2 of
                  Inl e \<Rightarrow> Inl e | Inr g \<Rightarrow> Inr (Some g))
          else (case re_groups all_text year_match of
                  [] \<Rightarrow> Inl IndexError | g # gs \<Rightarrow> Inr (Some (last (g # gs)))))"

text \<open>\<^verbatim>\<open>current_year or "Unknown"\<close>: \<open>None\<close> and the empty text are both false.\<close>

definition year_or_unknown :: "string option \<Rightarrow> string" where
  "year_or_unknown current_year =
     (case current_year of None \<Rightarrow> ''Unknown'' | Some y \<Rightarrow> if y = [] then ''Unknown'' else y)"

section \<open>The question markers\<close>

definition question_pattern :: "item list" where
  "question_pattern = [One (Ch CHR ''Q''), One (Ch CHR ''.''), Star Space,
                       Mark, Plus Digit, Mark, One (Ch CHR '')'')]"

text \<open>The loop over \<^verbatim>\<open>page_breaks.items()\<close>: the last entry not after the position wins.\<close>

fun find_page :: "(nat \<times> nat) list \<Rightarrow> nat \<Rightarrow> nat \<Rightarrow> nat" where
  "find_page [] start_pos found = found"
| "find_page ((pos, pg) # rest) start_pos found =
     find_page rest start_pos (if start_pos \<ge> pos then pg else found)"

fun collect_positions :: "string \<Rightarrow> (nat \<times> nat) list \<Rightarrow> rmatch list \<Rightarrow> py_error + qpos list" where
  "collect_positions all_text page_breaks [] = Inr []"
| "collect_positions all_text page_breaks (m # matches) =
     (case re_group all_text m 1 of
        Inl e \<Rightarrow> Inl e
      | Inr g \<Rightarrow>
     (case py_int g of
        Inl e \<Rightarrow> Inl e
      | Inr q_num \<Rightarrow>
     (case collect_positions all_text page_breaks matches of
        Inl e \<Rightarrow> Inl e
      | Inr rest \<Rightarrow>
          Inr (\<lparr>number = q_num, start = m_start m,
                page_num = find_page page_breaks (m_start m) 1\<rparr> # rest))))"

section \<open>The content of a question\<close>

text \<open>
  The steps of the main loop of \<^verbatim>\<open>extract_questions_with_year\<close>, one definition for each:
  where the span ends, how it is cleaned, the marks, the preview, and the record.
\<close>

definition star_pattern :: "item list" where
  "star_pattern = [Rep (Ch CHR ''*'') 10 None]"

definition page_marker_pattern :: "item list" where
  "page_marker_pattern = lits (NL # ''--- PAGE '') @ [Plus Digit] @ lits ('' ---'' @ [NL])"

definition blank_lines_pattern :: "item list" where
  "blank_lines_pattern = [One (Ch NL), Star Space, One (Ch NL), Star Space, One (Ch NL)]"

definition marks_pattern :: "item list" where
  "marks_pattern = [One (Ch CHR ''[''), Mark, Plus Digit, Mark, One (Ch CHR '']''), Star Space, Eos]"

definition marker_strip_pattern :: "item list" where
  "marker_strip_pattern = [One (Ch CHR ''Q''), One (Ch CHR ''.''), Star Space, Plus Digit,
                           One (Ch CHR '')'')]"

text \<open>Where the content of the \<open>i\<close>-th sorted marker ends.\<close>

definition end_pos :: "string \<Rightarrow> qpos list \<Rightarrow> nat \<Rightarrow> nat" where
  "end_pos all_text question_positions i =
     (if i + 1 < length question_positions then start (question_positions ! (i + 1))
      else (case re_finditer False star_pattern (drop (start (question_positions ! i)) all_text) of
              m # end_markers \<Rightarrow> start (question_positions ! i) + m_start m
            | [] \<Rightarrow> length all_text))"

definition clean_content :: "string \<Rightarrow> string" where
  "clean_content raw =
     strip (re_sub False blank_lines_pattern [NL, NL]
              (re_sub False page_marker_pattern [NL] (strip raw)))"

definition content_of :: "string \<Rightarrow> qpos list \<Rightarrow> nat \<Rightarrow> string" where
  "content_of all_text question_positions i =
     clean_content (slice (start (question_positions ! i)) (end_pos all_text question_positions i)
                      all_text)"

definition marks_of :: "string \<Rightarrow> py_error + string" where
  "marks_of content = (case re_search False marks_pattern content of
                         Some marks_match \<Rightarrow> re_group content marks_match 1
                       | None \<Rightarrow> Inr ''Unknown'')"

text \<open>The loop over the lines; it stops at the first line that is long enough once cleaned.\<close>

fun first_meaningful :: "string list \<Rightarrow> string" where
  "first_meaningful [] = []"
| "first_meaningful (line # lines) =
     (let clean_line = strip (re_sub False marker_strip_pattern [] line)
      in if clean_line \<noteq> [] \<and> length clean_line > 10 then clean_line
         else first_meaningful lines)"

definition preview_text :: "string \<Rightarrow> string" where
  "preview_text content =
     (let lines = split_nl content; found = first_meaningful lines
      in if found = [] then (case lines of l # ls \<Rightarrow> l | [] \<Rightarrow> content) else found)"

definition shorten :: "string \<Rightarrow> string" where
  "shorten p = (if length p > 150 then take 150 p @ ''...'' else p)"

text \<open>One round of the main loop: the record for the \<open>i\<close>-th sorted marker, if it gets one.\<close>

definition make_question :: "string \<Rightarrow> string option \<Rightarrow> qpos list \<Rightarrow> nat
                               \<Rightarrow> py_error + question option" where
  "make_question all_text current_year question_positions i =
     (let content = content_of all_text question_positions i
      in case marks_of content of
           Inl e \<Rightarrow> Inl e
         | Inr mk \<Rightarrow>
             if length content > 20
             then Inr (Some \<lparr>question_number = number (question_positions ! i),
                             question_preview = shorten (preview_text content),
                             complete_content = content,
                             marks = mk,
                             chapter = None,
                             year = year_or_unknown current_year,
                             page = page_num (question_positions ! i)\<rparr>)
             else Inr None)"

fun build_questions :: "string \<Rightarrow> string option \<Rightarrow> qpos list \<Rightarrow> nat list \<Rightarrow> question list
                          \<Rightarrow> py_error + question list" where
  "build_questions all_text current_year qps [] questions_data = Inr questions_data"
| "build_questions all_text current_year qps (i # is) questions_data =
     (case make_question all_text current_year qps i of
        Inl e \<Rightarrow> Inl e
      | Inr None \<Rightarrow> build_questions all_text current_year qps is questions_data
      | Inr (Some q) \<Rightarrow> build_questions all_text current_year qps is (questions_data @ [q]))"

section \<open>The extraction\<close>

definition all_text_of :: "string option list \<Rightarrow> string" where
  "all_text_of pages = fst (read_pages pages 1 [] [])"

definition page_breaks_of :: "string option list \<Rightarrow> (nat \<times> nat) list" where
  "page_breaks_of pages = snd (read_pages pages 1 [] [])"

text \<open>The markers in the order of the scan, before they are sorted.\<close>

definition scan_positions :: "string option list \<Rightarrow> py_error + qpos list" where
  "scan_positions pages =
     collect_positions (all_text_of pages) (page_breaks_of pages)
       (re_finditer False question_pattern (all_text_of pages))"

text \<open>\<^verbatim>\<open>list.sort(key=...)\<close> is a stable sort, as \<^const>\<open>sort_key\<close> is.\<close>

definition extract_questions_with_year :: "string option list \<Rightarrow> py_error + question list" where
  "extract_questions_with_year pages =
     (let all_text = all_text_of pages
      in case infer_year year_patterns all_text of
           Inl e \<Rightarrow> Inl e
         | Inr current_year \<Rightarrow>
        (case scan_positions pages of
           Inl e \<Rightarrow> Inl e
         | Inr found \<Rightarrow>
             (let question_positions = sort_key number found
              in build_questions all_text current_year question_positions
                   [0 ..< length question_positions] [])))"

section \<open>Bulk assignment of chapters\<close>

text \<open>
  \<^verbatim>\<open>keyword_mapping\<close> is a dictionary, read in insertion order: an association list.
  The records are changed in place and returned; the model returns the changed list.
\<close>

fun any_keyword :: "string list \<Rightarrow> string \<Rightarrow> bool" where
  "any_keyword [] question_lower = False"
| "any_keyword (keyword # keywords) question_lower =
     (if is_substring (lower keyword) question_lower then True
      else any_keyword keywords question_lower)"

fun assign_chapter :: "(string \<times> string list) list \<Rightarrow> question \<Rightarrow> question" where
  "assign_chapter [] q = q"
| "assign_chapter ((ch, keywords) # rest) q =
     (if any_keyword keywords (lower (question_preview q)) then q\<lparr>chapter := Some ch\<rparr>
      else assign_chapter rest q)"

fun bulk_assign_by_keywords :: "question list \<Rightarrow> (string \<times> string list) list \<Rightarrow> question list" where
  "bulk_assign_by_keywords [] keyword_mapping = []"
| "bulk_assign_by_keywords (q # questions) keyword_mapping =
     assign_chapter keyword_mapping q # bulk_assign_by_keywords questions keyword_mapping"

section \<open>Notions used in the statements\<close>

text \<open>
  A chapter entry matches a preview when one of its keywords, in lower case, occurs in the
  preview in lower case.
\<close>

definition keyword_match :: "string \<Rightarrow> string \<times> string list \<Rightarrow> bool" where
  "keyword_match preview entry =
     (\<exists>keyword \<in> set (snd entry). is_substring (lower keyword) (lower preview))"

text \<open>
  A match of \<open>r1 @ r2\<close> holds a match of \<open>r2\<close> further on in the text; \<open>tail_match\<close> says
  where, and how many group boundaries \<open>r1\<close> has passed.
\<close>

definition tail_match :: "bool \<Rightarrow> item list \<Rightarrow> item list \<Rightarrow> string \<Rightarrow> nat \<Rightarrow> nat list
                            \<Rightarrow> nat \<times> nat list \<Rightarrow> bool" where
  "tail_match ic r1 r2 s p ms res =
     (\<exists>n ms1. n \<le> length s \<and> length ms1 = length ms + count_list r1 Mark \<and>
              mt ic r2 (drop n s) (p + n) ms1 = Some res)"

text \<open>
  The year as the specification words it: the four patterns in their order, the first that
  matches anywhere in the text decides; the day-month-year form gives its second group,
  the other forms their last group; with no match the year is \<^verbatim>\<open>Unknown\<close>.
\<close>

definition year_spec :: "string \<Rightarrow> string" where
  "year_spec text =
     (case re_search True (dmy_head @ year_tail) text of
        Some m \<Rightarrow> re_groups text m ! 1
      | None \<Rightarrow>
     (case re_search True year_tail text of
        Some m \<Rightarrow> last (re_groups text m)
      | None \<Rightarrow>
     (case re_search True (label_head ''Year'' @ year_tail) text of
        Some m \<Rightarrow> last (re_groups text m)
      | None \<Rightarrow>
     (case re_search True (label_head ''Session'' @ year_tail) text of
        Some m \<Rightarrow> last (re_groups text m)
      | None \<Rightarrow> ''Unknown''))))"

text \<open>
  The record \<open>q\<close> is the one the main loop builds for the \<open>i\<close>-th sorted marker.
\<close>

definition made_by :: "string \<Rightarrow> string option \<Rightarrow> qpos list \<Rightarrow> nat \<Rightarrow> question \<Rightarrow> bool" where
  "made_by t cy qps i q =
     (question_number q = number (qps ! i) \<and>
      question_preview q = shorten (preview_text (content_of t qps i)) \<and>
      complete_content q = content_of t qps i \<and>
      marks_of (content_of t qps i) = Inr (marks q) \<and>
      chapter q = None \<and>
      year q = year_or_unknown cy \<and>
      page q = page_num (qps ! i))"

text \<open>
  The page that owns a position: the page recorded at the greatest offset that is not
  after the position.
\<close>

definition owner :: "(nat \<times> nat) list \<Rightarrow> nat \<Rightarrow> nat \<Rightarrow> bool" where
  "owner page_breaks pos pg =
     (\<exists>(k, v) \<in> set page_breaks. v = pg \<and> k \<le> pos \<and>
        (\<forall>(k', v') \<in> set page_breaks. k' \<le> pos \<longrightarrow> k' \<le> k))"

text \<open>
  What holds of the text and the offsets while the pages are read: the offsets increase
  strictly, lie inside the text, and the first one is 0.
\<close>

definition breaks_ok :: "string \<Rightarrow> (nat \<times> nat) list \<Rightarrow> bool" where
  "breaks_ok all_text page_breaks =
     (sorted_wrt (<) (map fst page_breaks) \<and>
      (\<forall>k \<in> set (map fst page_breaks). k < length all_text) \<and>
      (all_text \<noteq> [] \<longrightarrow> (\<exists>v. (0, v) \<in> set page_breaks)))"

text \<open>The digits of a marker that the scan has found: its first group.\<close>

definition marker_digits :: "string \<Rightarrow> rmatch \<Rightarrow> string" where
  "marker_digits all_text m = (case re_group all_text m 1 of Inr g \<Rightarrow> g | Inl e \<Rightarrow> [])"

text \<open>
  A line with a leading \<^verbatim>\<open>Q. <number>)\<close> fragment stripped; a content whose lines hold
  no such fragment other than a leading one; and the text the preview is cut from: the
  first line whose form, with a leading fragment stripped and trimmed, is longer than 10
  characters, in that form, or else the first line as it is.
\<close>

definition strip_leading :: "string \<Rightarrow> string" where
  "strip_leading line =
     (case match_at False marker_strip_pattern line 0 of
        Some m \<Rightarrow> drop (m_end m) line
      | None \<Rightarrow> line)"

definition leading_only :: "string \<Rightarrow> bool" where
  "leading_only content =
     list_all (\<lambda>line. re_search False marker_strip_pattern (strip_leading line) = None)
       (split_nl content)"

definition chosen_line :: "string \<Rightarrow> string" where
  "chosen_line content =
     (case find (\<lambda>line. 10 < length (strip (strip_leading line))) (split_nl content) of
        Some line \<Rightarrow> strip (strip_leading line)
      | None \<Rightarrow> (case split_nl content of line # rest \<Rightarrow> line | [] \<Rightarrow> content))"

section \<open>Evaluation\<close>

text \<open>\<^const>\<open>lower_chr\<close> on the bits of a character: a capital letter gets bit 5 set.\<close>

lemma lower_chr_bits [code]:
  "lower_chr (Char b0 b1 b2 b3 b4 b5 b6 b7) =
     (if b6 \<and> \<not> b5 \<and>
         (if b7 then \<not> (b0 \<and> b1 \<and> b2 \<and> b4)
          else (b0 \<or> b1 \<or> b2 \<or> b3 \<or> b4) \<and> \<not> (b4 \<and> b3 \<and> (b2 \<or> b1 \<and> b0)))
      then Char b0 b1 b2 b3 b4 True b6 b7 else Char b0 b1 b2 b3 b4 b5 b6 b7)"
  by (cases b0; cases b1; cases b2; cases b3; cases b4; cases b5; cases b6; cases b7;
      simp add: lower_chr_def ord_def Let_def char_of_def bit_0)

section \<open>Facts about texts\<close>

lemma starts_with_iff: "starts_with a s \<longleftrightarrow> (\<exists>v. s = a @ v)"
  by (induction a s rule: starts_with.induct) auto

lemma is_substring_iff: "is_substring a s \<longleftrightarrow> (\<exists>u v. s = u @ a @ v)"
proof (induction s)
  case Nil
  then show ?case by simp
next
  case (Cons c cs)
  show ?case
  proof
    assume "is_substring a (c # cs)"
    then consider "starts_with a (c # cs)" | "is_substring a cs" by auto
    then show "\<exists>u v. c # cs = u @ a @ v"
    proof cases
      case 1
      then obtain v where "c # cs = a @ v" by (auto simp: starts_with_iff)
      then have "c # cs = [] @ a @ v" by simp
      then show ?thesis by blast
    next
      case 2
      then obtain u v where "cs = u @ a @ v" using Cons.IH by blast
      then have "c # cs = (c # u) @ a @ v" by simp
      then show ?thesis by blast
    qed
  next
    assume "\<exists>u v. c # cs = u @ a @ v"
    then obtain u v where uv: "c # cs = u @ a @ v" by blast
    show "is_substring a (c # cs)"
    proof (cases u)
      case Nil
      then have "starts_with a (c # cs)" using uv by (auto simp: starts_with_iff)
      then show ?thesis by simp
    next
      case (Cons x u')
      then have "cs = u' @ a @ v" using uv by simp
      then have "is_substring a cs" using Cons.IH by blast
      then show ?thesis by simp
    qed
  qed
qed

section \<open>Facts about the matcher\<close>

lemma lit_prefix_length: "lit_prefix ic w s \<Longrightarrow> length w \<le> length s"
  by (induction ic w s rule: lit_prefix.induct) auto

lemma mt_One:
  "mt ic (One a # r) s p ms =
     (case s of [] \<Rightarrow> None | c # cs \<Rightarrow> if atom_ok ic a c then mt ic r cs (Suc p) ms else None)"
proof (cases s)
  case Nil
  then show ?thesis by simp
next
  case (Cons c cs)
  then show ?thesis by (cases cs) (auto split: option.splits)
qed

lemma mt_Alt_None:
  "(mt ic (Alt (w # ws) # r) s p ms = None) =
     ((lit_prefix ic w s \<longrightarrow> mt ic r (drop (length w) s) (p + length w) ms = None) \<and>
      mt ic (Alt ws # r) s p ms = None)"
  by (simp split: option.splits)

lemma mt_Rep_None:
  "(mt ic (Rep a lo hi # r) (c # cs) p ms = None) =
     ((hi \<noteq> Some 0 \<and> atom_ok ic a c \<longrightarrow>
         mt ic (Rep a (lo - 1) (map_option (\<lambda>h. h - 1) hi) # r) cs (Suc p) ms = None) \<and>
      (lo = 0 \<longrightarrow> mt ic r (c # cs) p ms = None))"
  by (simp split: option.splits)

lemma mt_None_indep:
  "(mt ic r s p ms = None) = (mt ic r s p' ms' = None)"
proof (induction ic r s p ms arbitrary: p' ms' rule: mt.induct)
  case (1 ic s p ms)
  show ?case by simp
next
  case (2 ic r s p ms)
  show ?case using 2[of p' "ms' @ [p']"] by simp
next
  case (3 ic r s p ms)
  show ?case using 3[of p' ms'] by simp
next
  case (4 ic r s p ms)
  show ?case by simp
next
  case (5 ic w ws r s p ms)
  show ?case
    unfolding mt_Alt_None
    using "5.IH"(1)[of "p' + length w" ms'] "5.IH"(2)[of p' ms']
    by (cases "lit_prefix ic w s") auto
next
  case (6 ic a lo hi r p ms)
  show ?case using 6[of p' ms'] by simp
next
  case (7 ic a lo hi r c cs p ms)
  show ?case
    unfolding mt_Rep_None
    using "7.IH"(1)[of "Suc p'" ms'] "7.IH"(2)[of p' ms'] "7.IH"(3)[of p' ms']
    by (cases "hi \<noteq> Some 0 \<and> atom_ok ic a c"; cases "lo = 0") auto
qed


lemma mt_Alt_Some:
  "(mt ic (Alt (w # ws) # r) s p ms = Some res) =
     ((lit_prefix ic w s \<and> mt ic r (drop (length w) s) (p + length w) ms = Some res) \<or>
      ((lit_prefix ic w s \<longrightarrow> mt ic r (drop (length w) s) (p + length w) ms = None) \<and>
       mt ic (Alt ws # r) s p ms = Some res))"
  by (simp split: option.splits)

lemma mt_Rep_Some:
  "(mt ic (Rep a lo hi # r) (c # cs) p ms = Some res) =
     ((hi \<noteq> Some 0 \<and> atom_ok ic a c \<and>
         mt ic (Rep a (lo - 1) (map_option (\<lambda>h. h - 1) hi) # r) cs (Suc p) ms = Some res) \<or>
      ((hi \<noteq> Some 0 \<and> atom_ok ic a c \<longrightarrow>
         mt ic (Rep a (lo - 1) (map_option (\<lambda>h. h - 1) hi) # r) cs (Suc p) ms = None) \<and>
       lo = 0 \<and> mt ic r (c # cs) p ms = Some res))"
  by (simp split: option.splits)

lemma tail_match_Nil: "mt ic r2 s p ms = Some res \<Longrightarrow> tail_match ic [] r2 s p ms res"
  unfolding tail_match_def by (intro exI[of _ 0] exI[of _ ms]) simp

lemma tail_match_Mark:
  "tail_match ic r1 r2 s p (ms @ [p]) res \<Longrightarrow> tail_match ic (Mark # r1) r2 s p ms res"
  unfolding tail_match_def by auto

lemma tail_match_skip:
  "x \<noteq> Mark \<Longrightarrow> tail_match ic r1 r2 s p ms res \<Longrightarrow> tail_match ic (x # r1) r2 s p ms res"
  unfolding tail_match_def by auto

lemma tail_match_drop:
  assumes "tail_match ic r1 r2 (drop k s) (p + k) ms res" "k \<le> length s" "x \<noteq> Mark"
  shows "tail_match ic (x # r1) r2 s p ms res"
proof -
  from assms(1) obtain n ms1 where
    n: "n \<le> length (drop k s)" "length ms1 = length ms + count_list r1 Mark"
       "mt ic r2 (drop n (drop k s)) (p + k + n) ms1 = Some res"
    unfolding tail_match_def by blast
  have "k + n \<le> length s" using n(1) assms(2) by simp
  moreover have e: "drop n (drop k s) = drop (k + n) s"
    by (simp add: add.commute)
  have "mt ic r2 (drop (k + n) s) (p + (k + n)) ms1 = Some res"
    using n(3) unfolding e add.assoc .
  moreover have "length ms1 = length ms + count_list (x # r1) Mark"
    using n(2) assms(3) by simp
  ultimately show ?thesis unfolding tail_match_def by blast
qed

lemma mt_append_aux:
  "r = r1 @ r2 \<Longrightarrow> mt ic r s p ms = Some res \<Longrightarrow> tail_match ic r1 r2 s p ms res"
proof (induction ic r s p ms arbitrary: r1 rule: mt.induct)
  case (1 ic s p ms)
  then show ?case using tail_match_Nil by simp
next
  case (2 ic r s p ms)
  show ?case
  proof (cases r1)
    case Nil
    then show ?thesis using 2 tail_match_Nil by simp
  next
    case (Cons x r1')
    then have "x = Mark" "r = r1' @ r2" using "2.prems" by auto
    then show ?thesis using 2 Cons tail_match_Mark by simp
  qed
next
  case (3 ic r s p ms)
  show ?case
  proof (cases r1)
    case Nil
    then show ?thesis using 3 tail_match_Nil by simp
  next
    case (Cons x r1')
    then have x: "x = Eos" "r = r1' @ r2" using "3.prems" by auto
    have c: "s = [] \<or> s = [NL]" and m: "mt ic r s p ms = Some res"
      using "3.prems"(2) by (auto split: if_splits)
    from "3.IH"[OF c x(2) m] show ?thesis using Cons x tail_match_skip by simp
  qed
next
  case (4 ic r s p ms)
  from "4.prems"(2) show ?case by simp
next
  case (5 ic w ws r s p ms)
  show ?case
  proof (cases r1)
    case Nil
    then show ?thesis using 5 tail_match_Nil by simp
  next
    case (Cons x r1')
    then have x: "x = Alt (w # ws)" "r = r1' @ r2" using "5.prems" by auto
    from "5.prems"(2) consider
      (a) "lit_prefix ic w s" "mt ic r (drop (length w) s) (p + length w) ms = Some res"
    | (b) "(if lit_prefix ic w s then mt ic r (drop (length w) s) (p + length w) ms else None) = None"
          "mt ic (Alt ws # r) s p ms = Some res"
      unfolding mt_Alt_Some by auto
    then show ?thesis
    proof cases
      case a
      from "5.IH"(1)[OF a(1) x(2) a(2)]
      have "tail_match ic r1' r2 (drop (length w) s) (p + length w) ms res" .
      then show ?thesis
        using tail_match_drop lit_prefix_length[OF a(1)] Cons x by simp
    next
      case b
      have "Alt ws # r = (Alt ws # r1') @ r2" using x by simp
      from "5.IH"(2)[OF b(1) this b(2)]
      have "tail_match ic (Alt ws # r1') r2 s p ms res" .
      then show ?thesis unfolding tail_match_def Cons x by simp
    qed
  qed
next
  case (6 ic a lo hi r p ms)
  show ?case
  proof (cases r1)
    case Nil
    then show ?thesis using 6 tail_match_Nil by simp
  next
    case (Cons x r1')
    then have x: "x = Rep a lo hi" "r = r1' @ r2" using "6.prems" by auto
    have c: "lo = 0" and m: "mt ic r [] p ms = Some res"
      using "6.prems"(2) by (auto split: if_splits)
    from "6.IH"[OF c x(2) m] show ?thesis using Cons x tail_match_skip by simp
  qed
next
  case (7 ic a lo hi r c cs p ms)
  show ?case
  proof (cases r1)
    case Nil
    then show ?thesis using 7 tail_match_Nil by simp
  next
    case (Cons x r1')
    then have x: "x = Rep a lo hi" "r = r1' @ r2" using "7.prems" by auto
    let ?more = "mt ic (Rep a (lo - 1) (map_option (\<lambda>h. h - 1) hi) # r) cs (Suc p) ms"
    from "7.prems"(2) consider
      (a) "hi \<noteq> Some 0 \<and> atom_ok ic a c" "?more = Some res"
    | (b) "hi \<noteq> Some 0 \<and> atom_ok ic a c" "?more = None" "lo = 0" "mt ic r (c # cs) p ms = Some res"
    | (c) "\<not> (hi \<noteq> Some 0 \<and> atom_ok ic a c)" "lo = 0" "mt ic r (c # cs) p ms = Some res"
      unfolding mt_Rep_Some by (cases "hi \<noteq> Some 0 \<and> atom_ok ic a c") auto
    then show ?thesis
    proof cases
      case a
      have "Rep a (lo - 1) (map_option (\<lambda>h. h - 1) hi) # r =
            (Rep a (lo - 1) (map_option (\<lambda>h. h - 1) hi) # r1') @ r2" using x by simp
      from "7.IH"(1)[OF a(1) this a(2)]
      have "tail_match ic (Rep a (lo - 1) (map_option (\<lambda>h. h - 1) hi) # r1') r2 cs (Suc p) ms res" .
      then have "tail_match ic r1' r2 cs (Suc p) ms res"
        unfolding tail_match_def by simp
      then have "tail_match ic r1' r2 (drop 1 (c # cs)) (p + 1) ms res" by simp
      then have "tail_match ic (x # r1') r2 (c # cs) p ms res"
        by (rule tail_match_drop) (simp_all add: x)
      then show ?thesis using Cons by simp
    next
      case b
      from "7.IH"(2)[OF b(1) b(2) b(3) x(2) b(4)] show ?thesis
        using Cons x tail_match_skip by simp
    next
      case c
      from "7.IH"(3)[OF c(1) c(2) x(2) c(3)] show ?thesis
        using Cons x tail_match_skip by simp
    qed
  qed
qed

lemma mt_append:
  "mt ic (r1 @ r2) s p ms = Some res \<Longrightarrow>
     \<exists>n ms1. n \<le> length s \<and> length ms1 = length ms + count_list r1 Mark \<and>
             mt ic r2 (drop n s) (p + n) ms1 = Some res"
  using mt_append_aux[OF refl] unfolding tail_match_def by blast

lemma mt_bounds:
  assumes "mt ic r s p ms = Some (e, ms')"
  shows "p \<le> e" "e \<le> p + length s" "length ms' = length ms + count_list r Mark"
proof -
  from assms have "mt ic (r @ []) s p ms = Some (e, ms')" by simp
  from mt_append[OF this] obtain n ms1 where
    "n \<le> length s" "length ms1 = length ms + count_list r Mark"
    "mt ic [] (drop n s) (p + n) ms1 = Some (e, ms')" by blast
  then show "p \<le> e" "e \<le> p + length s" "length ms' = length ms + count_list r Mark"
    by auto
qed

lemma mt_Rep_00: "mt ic (Rep a 0 (Some 0) # r) s p ms = mt ic r s p ms"
  by (cases s) simp_all

lemma mt_Rep_Suc:
  "mt ic (Rep a (Suc lo) hi # r) s p ms =
     (case s of [] \<Rightarrow> None
      | c # cs \<Rightarrow> if hi \<noteq> Some 0 \<and> atom_ok ic a c
                  then mt ic (Rep a lo (map_option (\<lambda>h. h - 1) hi) # r) cs (Suc p) ms
                  else None)"
  by (cases s) (simp_all split: option.splits)

lemma mt_Rep_dest:
  "mt ic (Rep a lo hi # r) s p ms = Some res \<Longrightarrow>
     \<exists>n. lo \<le> n \<and> n \<le> length s \<and> (\<forall>c \<in> set (take n s). atom_ok ic a c) \<and>
         mt ic r (drop n s) (p + n) ms = Some res"
proof (induction s arbitrary: lo hi p)
  case Nil
  then show ?case by (auto split: if_splits)
next
  case (Cons c cs)
  let ?more = "mt ic (Rep a (lo - 1) (map_option (\<lambda>h. h - 1) hi) # r) cs (Suc p) ms"
  from Cons.prems consider
    (a) "atom_ok ic a c" "?more = Some res"
  | (b) "lo = 0" "mt ic r (c # cs) p ms = Some res"
    unfolding mt_Rep_Some by auto
  then show ?case
  proof cases
    case a
    from Cons.IH[OF a(2)] obtain n where
      n: "lo - 1 \<le> n" "n \<le> length cs" "\<forall>c \<in> set (take n cs). atom_ok ic a c"
         "mt ic r (drop n cs) (Suc p + n) ms = Some res" by blast
    have "lo \<le> Suc n \<and> Suc n \<le> length (c # cs) \<and>
          (\<forall>x \<in> set (take (Suc n) (c # cs)). atom_ok ic a x) \<and>
          mt ic r (drop (Suc n) (c # cs)) (p + Suc n) ms = Some res"
      using n a(1) by auto
    then show ?thesis by blast
  next
    case b
    then have "lo \<le> 0 \<and> 0 \<le> length (c # cs) \<and>
          (\<forall>x \<in> set (take 0 (c # cs)). atom_ok ic a x) \<and>
          mt ic r (drop 0 (c # cs)) (p + 0) ms = Some res" by simp
    then show ?thesis by blast
  qed
qed

lemma list4_cases:
  obtains "s = []" | c1 where "s = [c1]" | c1 c2 where "s = [c1, c2]"
        | c1 c2 c3 where "s = [c1, c2, c3]"
        | c1 c2 c3 c4 rest where "s = c1 # c2 # c3 # c4 # rest"
proof (cases s)
  case Nil
  then show ?thesis using that by simp
next
  case s1: (Cons c1 s1)
  show ?thesis
  proof (cases s1)
    case Nil
    then show ?thesis using that s1 by simp
  next
    case s2: (Cons c2 s2)
    show ?thesis
    proof (cases s2)
      case Nil
      then show ?thesis using that s1 s2 by simp
    next
      case s3: (Cons c3 s3)
      show ?thesis
      proof (cases s3)
        case Nil
        then show ?thesis using that s1 s2 s3 by simp
      next
        case (Cons c4 rest)
        then show ?thesis using that s1 s2 s3 by simp
      qed
    qed
  qed
qed

lemma mt_year_tail_eq:
  "mt ic year_tail s p ms =
     (if 4 \<le> length s \<and> atom_ok ic (Ch CHR ''2'') (s ! 0) \<and> atom_ok ic (Ch CHR ''0'') (s ! 1) \<and>
         is_digit (s ! 2) \<and> is_digit (s ! 3)
      then Some (p + 4, ms @ [p, p + 4]) else None)"
  by (cases s rule: list4_cases)
     (simp_all add: year_tail_def mt_Rep_Suc mt_Rep_00 numeral_2_eq_2)

lemma mt_year_tail:
  assumes "mt ic year_tail s p ms = Some (e, ms')"
  shows "e = p + 4 \<and> ms' = ms @ [p, p + 4] \<and> 4 \<le> length s"
  using assms unfolding mt_year_tail_eq by (simp split: if_splits)

lemma match_at_Some:
  "match_at ic r s p = Some m \<Longrightarrow>
     m_start m = p \<and> mt ic r s p [] = Some (m_end m, m_marks m)"
  by (auto simp: match_at_def split: option.splits)

lemma match_at_None: "match_at ic r s p = None \<longleftrightarrow> mt ic r s p [] = None"
  by (auto simp: match_at_def split: option.splits)

lemma search_from_Some:
  "search_from ic r s p = Some m \<Longrightarrow>
     \<exists>n \<le> length s. m_start m = p + n \<and>
        mt ic r (drop n s) (p + n) [] = Some (m_end m, m_marks m)"
proof (induction s arbitrary: p)
  case Nil
  then have "match_at ic r [] p = Some m" by simp
  from match_at_Some[OF this] show ?case by simp
next
  case (Cons c cs)
  show ?case
  proof (cases "match_at ic r (c # cs) p")
    case None
    then have "search_from ic r cs (Suc p) = Some m" using Cons.prems by simp
    from Cons.IH[OF this] obtain n where
      "n \<le> length cs" "m_start m = Suc p + n"
      "mt ic r (drop n cs) (Suc p + n) [] = Some (m_end m, m_marks m)" by blast
    then have "Suc n \<le> length (c # cs) \<and> m_start m = p + Suc n \<and>
               mt ic r (drop (Suc n) (c # cs)) (p + Suc n) [] = Some (m_end m, m_marks m)"
      by simp
    then show ?thesis by blast
  next
    case (Some m')
    then have "m' = m" using Cons.prems by simp
    then have "match_at ic r (c # cs) p = Some m" using Some by simp
    from match_at_Some[OF this]
    have "0 \<le> length (c # cs) \<and> m_start m = p + 0 \<and>
               mt ic r (drop 0 (c # cs)) (p + 0) [] = Some (m_end m, m_marks m)"
      by simp
    then show ?thesis by blast
  qed
qed

lemma search_from_None:
  "search_from ic r s p = None \<longleftrightarrow> (\<forall>n \<le> length s. mt ic r (drop n s) (p + n) [] = None)"
proof (induction s arbitrary: p)
  case Nil
  then show ?case by (simp add: match_at_None)
next
  case (Cons c cs)
  have "(\<forall>n \<le> length (c # cs). mt ic r (drop n (c # cs)) (p + n) [] = None) \<longleftrightarrow>
        mt ic r (c # cs) p [] = None \<and>
        (\<forall>n \<le> length cs. mt ic r (drop n cs) (Suc p + n) [] = None)"
    (is "?L \<longleftrightarrow> ?R")
  proof
    assume l: ?L
    have "mt ic r (c # cs) p [] = None" using l[rule_format, of 0] by simp
    moreover have "\<forall>n \<le> length cs. mt ic r (drop n cs) (Suc p + n) [] = None"
    proof (intro allI impI)
      fix n assume "n \<le> length cs"
      then show "mt ic r (drop n cs) (Suc p + n) [] = None"
        using l[rule_format, of "Suc n"] by simp
    qed
    ultimately show ?R by blast
  next
    assume r: ?R
    show ?L
    proof (intro allI impI)
      fix n assume n: "n \<le> length (c # cs)"
      show "mt ic r (drop n (c # cs)) (p + n) [] = None"
      proof (cases n)
        case 0
        then show ?thesis using r by simp
      next
        case (Suc k)
        then show ?thesis using r n by simp
      qed
    qed
  qed
  note split = this
  show ?case
  proof (cases "match_at ic r (c # cs) p")
    case None
    then have "mt ic r (c # cs) p [] = None" by (simp add: match_at_None)
    then show ?thesis using None split Cons.IH[of "Suc p"] by simp
  next
    case (Some m')
    then have "mt ic r (c # cs) p [] \<noteq> None" using match_at_None[of ic r "c # cs" p] by simp
    then show ?thesis using Some split by simp
  qed
qed

lemma re_search_matches_anywhere:
  "re_search ic r s \<noteq> None \<longleftrightarrow> (\<exists>n \<le> length s. mt ic r (drop n s) n [] \<noteq> None)"
proof -
  have "re_search ic r s = None \<longleftrightarrow> (\<forall>n \<le> length s. mt ic r (drop n s) n [] = None)"
    using search_from_None[of ic r s 0] by (simp add: re_search_def)
  then show ?thesis by simp
qed

lemma finditer_from_set:
  "m \<in> set (finditer_from ic r s p k) \<Longrightarrow>
     \<exists>n \<le> length s. m_start m = p + n \<and>
        mt ic r (drop n s) (p + n) [] = Some (m_end m, m_marks m)"
proof (induction s arbitrary: p k)
  case Nil
  have "match_at ic r [] p = Some m"
    using Nil unfolding finditer_from.simps(1)
    by (cases "k = 0"; cases "match_at ic r [] p") simp_all
  from match_at_Some[OF this] have "m_start m = p \<and> mt ic r [] p [] = Some (m_end m, m_marks m)" .
  then have "0 \<le> length ([]::string) \<and> m_start m = p + 0 \<and>
        mt ic r (drop 0 []) (p + 0) [] = Some (m_end m, m_marks m)" by simp
  then show ?case by blast
next
  case (Cons c cs)
  have step: "\<exists>n \<le> length (c # cs). m_start m = p + n \<and>
        mt ic r (drop n (c # cs)) (p + n) [] = Some (m_end m, m_marks m)"
    if "m \<in> set (finditer_from ic r cs (Suc p) k')" for k'
  proof -
    from Cons.IH[OF that] obtain n where
      "n \<le> length cs" "m_start m = Suc p + n"
      "mt ic r (drop n cs) (Suc p + n) [] = Some (m_end m, m_marks m)" by blast
    then have "Suc n \<le> length (c # cs) \<and> m_start m = p + Suc n \<and>
               mt ic r (drop (Suc n) (c # cs)) (p + Suc n) [] = Some (m_end m, m_marks m)"
      by simp
    then show ?thesis by blast
  qed
  show ?case
  proof (cases "0 < k")
    case True
    then have "m \<in> set (finditer_from ic r cs (Suc p) (k - 1))" using Cons.prems by simp
    then show ?thesis by (rule step)
  next
    case False
    show ?thesis
    proof (cases "match_at ic r (c # cs) p")
      case None
      then have "m \<in> set (finditer_from ic r cs (Suc p) 0)" using Cons.prems False by simp
      then show ?thesis by (rule step)
    next
      case (Some m')
      then consider "m = m'" | "m \<in> set (finditer_from ic r cs (Suc p) (m_end m' - p - 1))"
        using Cons.prems False by auto
      then show ?thesis
      proof cases
        case 1
        then have "match_at ic r (c # cs) p = Some m" using Some by simp
        from match_at_Some[OF this]
        have "0 \<le> length (c # cs) \<and> m_start m = p + 0 \<and>
               mt ic r (drop 0 (c # cs)) (p + 0) [] = Some (m_end m, m_marks m)"
          by simp
        then show ?thesis by blast
      next
        case 2
        then show ?thesis by (rule step)
      qed
    qed
  qed
qed

text \<open>
  The patterns that the program iterates over, with \<^verbatim>\<open>finditer\<close> or \<^verbatim>\<open>sub\<close>, never match
  the empty text, so what Python does after an empty match plays no part.
\<close>

lemma mt_One_consumes:
  assumes "mt ic (One a # r) s p ms = Some (e, ms')"
  shows "p < e"
proof -
  from assms obtain c cs where "s = c # cs" "mt ic r cs (Suc p) ms = Some (e, ms')"
    unfolding mt_One by (cases s) (auto split: if_splits)
  from mt_bounds(1)[OF this(2)] show ?thesis by simp
qed

lemma iterated_patterns_consume:
  assumes "r \<in> {question_pattern, star_pattern, page_marker_pattern, blank_lines_pattern,
                 marker_strip_pattern}"
      and "mt ic r s p ms = Some (e, ms')"
  shows "p < e"
proof (cases "r = star_pattern")
  case True
  from assms(2) obtain n where "10 \<le> n" "mt ic [] (drop n s) (p + n) ms = Some (e, ms')"
    unfolding True star_pattern_def using mt_Rep_dest by blast
  then show ?thesis by simp
next
  case False
  then obtain a r' where "r = One a # r'"
    using assms(1)
    by (auto simp: question_pattern_def page_marker_pattern_def blank_lines_pattern_def
                   marker_strip_pattern_def lits_def)
  then show ?thesis using assms(2) mt_One_consumes by blast
qed

section \<open>Facts about the year\<close>

lemma spans_snoc2: "even (length ms) \<Longrightarrow> spans (ms @ [a, b]) = spans ms @ [(a, b)]"
  by (induction ms rule: spans.induct) auto

lemma length_spans: "length (spans ms) = length ms div 2"
  by (induction ms rule: spans.induct) auto

lemma year_match_marks:
  assumes "re_search True (h @ year_tail) t = Some m"
  shows "\<exists>ms1 q. length ms1 = count_list h Mark \<and> m_marks m = ms1 @ [q, q + 4] \<and>
                 q + 4 \<le> length t"
proof -
  from assms obtain n where
    n: "n \<le> length t" "mt True (h @ year_tail) (drop n t) (0 + n) [] = Some (m_end m, m_marks m)"
    unfolding re_search_def using search_from_Some by blast
  from mt_append[OF n(2)] obtain k ms1 where
    k: "k \<le> length (drop n t)" "length ms1 = length ([]::nat list) + count_list h Mark"
       "mt True year_tail (drop k (drop n t)) (0 + n + k) ms1 = Some (m_end m, m_marks m)"
    by blast
  from mt_year_tail[OF k(3)]
  have "m_marks m = ms1 @ [0 + n + k, 0 + n + k + 4]" "4 \<le> length (drop k (drop n t))"
    by simp_all
  then have "length ms1 = count_list h Mark \<and> m_marks m = ms1 @ [n + k, n + k + 4] \<and>
             n + k + 4 \<le> length t"
    using k(2) by simp
  then show ?thesis by blast
qed

lemma year_match_groups:
  assumes "re_search True (h @ year_tail) t = Some m" "even (count_list h Mark)"
  shows "\<exists>g. length g = 4 \<and> length (re_groups t m) = Suc (count_list h Mark div 2) \<and>
             last (re_groups t m) = g \<and> re_groups t m ! (count_list h Mark div 2) = g"
proof -
  from year_match_marks[OF assms(1)] obtain ms1 q where
    q: "length ms1 = count_list h Mark" "m_marks m = ms1 @ [q, q + 4]" "q + 4 \<le> length t"
    by blast
  have sp: "spans (m_marks m) = spans ms1 @ [(q, q + 4)]"
    using q assms(2) by (simp add: spans_snoc2)
  have g: "re_groups t m = map (\<lambda>(a, b). slice a b t) (spans ms1) @ [slice q (q + 4) t]"
    by (simp add: re_groups_def sp)
  have "length (slice q (q + 4) t) = 4" using q(3) by (simp add: slice_def)
  moreover have "length (re_groups t m) = Suc (count_list h Mark div 2)"
    by (simp add: g length_spans q(1))
  moreover have "last (re_groups t m) = slice q (q + 4) t" by (simp add: g)
  moreover have "re_groups t m ! (count_list h Mark div 2) = slice q (q + 4) t"
    by (simp add: g length_spans q(1) nth_append)
  ultimately show ?thesis by blast
qed

lemma count_dmy_head: "count_list dmy_head Mark = 2"
  by (simp add: dmy_head_def)

lemma count_lits: "count_list (lits w) Mark = 0"
  by (induction w) (simp_all add: lits_def)

lemma count_label_head: "count_list (label_head w) Mark = 0"
  by (simp add: label_head_def count_lits)

lemma source_tests:
  "is_substring ''st|nd|rd|th'' (fst (year_patterns ! 0))"
  "\<not> is_substring ''st|nd|rd|th'' (fst (year_patterns ! 1))"
  "\<not> is_substring ''st|nd|rd|th'' (fst (year_patterns ! 2))"
  "\<not> is_substring ''st|nd|rd|th'' (fst (year_patterns ! 3))"
  by (simp_all add: year_patterns_def)

lemma dmy_match:
  assumes "re_search True (dmy_head @ year_tail) t = Some m"
  shows "\<exists>g. length g = 4 \<and> re_group t m 2 = Inr g \<and> re_groups t m ! 1 = g"
proof -
  from year_match_groups[OF assms] obtain g where
    "length g = 4" "length (re_groups t m) = Suc (count_list dmy_head Mark div 2)"
    "re_groups t m ! (count_list dmy_head Mark div 2) = g"
    by (auto simp: count_dmy_head)
  then have "length g = 4 \<and> re_group t m 2 = Inr g \<and> re_groups t m ! 1 = g"
    by (simp add: re_group_def count_dmy_head)
  then show ?thesis by blast
qed

lemma single_match:
  assumes "re_search True (h @ year_tail) t = Some m" "count_list h Mark = 0"
  shows "\<exists>g. length g = 4 \<and> re_groups t m = [g]"
proof -
  from year_match_groups[OF assms(1)] assms(2) obtain g where
    g: "length g = 4" "length (re_groups t m) = Suc 0" "last (re_groups t m) = g"
    by auto
  then have "re_groups t m = [g]"
    by (cases "re_groups t m") auto
  then show ?thesis using g(1) by blast
qed

lemma infer_year_spec:
  "\<exists>cy. infer_year year_patterns t = Inr cy \<and> year_or_unknown cy = year_spec t"
proof -
  let ?p1 = "dmy_head @ year_tail" and ?p2 = "year_tail"
  and ?p3 = "label_head ''Year'' @ year_tail" and ?p4 = "label_head ''Session'' @ year_tail"
  obtain s1 s2 s3 s4 where
    yp: "year_patterns = [(s1, ?p1), (s2, ?p2), (s3, ?p3), (s4, ?p4)]" and
    src: "is_substring ''st|nd|rd|th'' s1" "\<not> is_substring ''st|nd|rd|th'' s2"
         "\<not> is_substring ''st|nd|rd|th'' s3" "\<not> is_substring ''st|nd|rd|th'' s4"
    using source_tests by (simp add: year_patterns_def)
  have single: "\<exists>g. length g = 4 \<and> re_groups t m = [g]"
    if "re_search True p t = Some m" "p = ?p2 \<or> p = ?p3 \<or> p = ?p4" for p m
  proof -
    from that(2) consider "p = [] @ year_tail" | "p = ?p3" | "p = ?p4" by auto
    then show ?thesis
      using that(1) single_match[of "[]" t m] single_match[of "label_head ''Year''" t m]
        single_match[of "label_head ''Session''" t m]
      by cases (simp_all add: count_label_head)
  qed
  show ?thesis
  proof (cases "re_search True ?p1 t")
    case (Some m)
    from dmy_match[OF Some] obtain g where
      g: "length g = 4" "re_group t m 2 = Inr g" "re_groups t m ! 1 = g" by blast
    have "infer_year year_patterns t = Inr (Some g)"
      by (simp add: yp Some src g)
    moreover have "year_spec t = g" using g(3) by (simp add: year_spec_def Some)
    moreover have "year_or_unknown (Some g) = g" using g(1) by (auto simp: year_or_unknown_def)
    ultimately show ?thesis by simp
  next
    case n1: None
    show ?thesis
    proof (cases "re_search True ?p2 t")
      case (Some m)
      from single[OF Some] obtain g where g: "length g = 4" "re_groups t m = [g]" by blast
      have "infer_year year_patterns t = Inr (Some g)"
        by (simp add: yp n1 Some src g)
      moreover have "year_spec t = g" by (simp add: year_spec_def n1 Some g)
      moreover have "year_or_unknown (Some g) = g" using g(1) by (auto simp: year_or_unknown_def)
      ultimately show ?thesis by simp
    next
      case n2: None
      show ?thesis
      proof (cases "re_search True ?p3 t")
        case (Some m)
        from single[OF Some] obtain g where g: "length g = 4" "re_groups t m = [g]" by blast
        have "infer_year year_patterns t = Inr (Some g)"
          by (simp add: yp n1 n2 Some src g)
        moreover have "year_spec t = g" by (simp add: year_spec_def n1 n2 Some g)
        moreover have "year_or_unknown (Some g) = g" using g(1) by (auto simp: year_or_unknown_def)
        ultimately show ?thesis by simp
      next
        case n3: None
        show ?thesis
        proof (cases "re_search True ?p4 t")
          case (Some m)
          from single[OF Some] obtain g where g: "length g = 4" "re_groups t m = [g]" by blast
          have "infer_year year_patterns t = Inr (Some g)"
            by (simp add: yp n1 n2 n3 Some src g)
          moreover have "year_spec t = g" by (simp add: year_spec_def n1 n2 n3 Some g)
          moreover have "year_or_unknown (Some g) = g" using g(1) by (auto simp: year_or_unknown_def)
          ultimately show ?thesis by simp
        next
          case n4: None
          have "infer_year year_patterns t = Inr None"
            by (simp add: yp n1 n2 n3 n4)
          moreover have "year_spec t = ''Unknown''" by (simp add: year_spec_def n1 n2 n3 n4)
          ultimately show ?thesis by (simp add: year_or_unknown_def)
        qed
      qed
    qed
  qed
qed

lemma tail_search:
  assumes "re_search ic (h @ r) t \<noteq> None"
  shows "re_search ic r t \<noteq> None"
proof -
  from assms obtain n where n: "n \<le> length t" "mt ic (h @ r) (drop n t) n [] \<noteq> None"
    unfolding re_search_matches_anywhere by blast
  then obtain res where "mt ic (h @ r) (drop n t) n [] = Some res" by blast
  from mt_append[OF this] obtain k ms1 where
    k: "k \<le> length (drop n t)" "mt ic r (drop k (drop n t)) (n + k) ms1 = Some res" by blast
  have "mt ic r (drop (n + k) t) (n + k) [] \<noteq> None"
    using k(2) mt_None_indep[of ic r "drop k (drop n t)" "n + k" ms1 "n + k" "[]"]
    by (simp add: add.commute)
  moreover have "n + k \<le> length t" using n(1) k(1) by simp
  ultimately show ?thesis unfolding re_search_matches_anywhere by blast
qed

section \<open>The year does not depend on the case of the text\<close>

lemma lower_chr_idem: "lower_chr (lower_chr c) = lower_chr c"
proof (cases c)
  case (Char b0 b1 b2 b3 b4 b5 b6 b7)
  show ?thesis unfolding Char
    by (cases b0; cases b1; cases b2; cases b3; cases b4; cases b5; cases b6; cases b7;
        simp add: lower_chr_bits)
qed

lemma is_digit_lower: "is_digit (lower_chr c) = is_digit c"
proof (cases c)
  case (Char b0 b1 b2 b3 b4 b5 b6 b7)
  show ?thesis unfolding Char
    by (cases b0; cases b1; cases b2; cases b3; cases b4; cases b5; cases b6; cases b7;
        simp add: lower_chr_bits is_digit_def)
qed

lemma is_space_lower: "is_space (lower_chr c) = is_space c"
proof (cases c)
  case (Char b0 b1 b2 b3 b4 b5 b6 b7)
  show ?thesis unfolding Char
    by (cases b0; cases b1; cases b2; cases b3; cases b4; cases b5; cases b6; cases b7;
        simp add: lower_chr_bits is_space_def)
qed

lemma is_word_lower: "is_word (lower_chr c) = is_word c"
proof (cases c)
  case (Char b0 b1 b2 b3 b4 b5 b6 b7)
  show ?thesis unfolding Char
    by (cases b0; cases b1; cases b2; cases b3; cases b4; cases b5; cases b6; cases b7;
        simp add: lower_chr_bits is_word_def ord_def Let_def)
qed

lemma is_digit_fixed: "is_digit c \<Longrightarrow> lower_chr c = c"
proof (cases c)
  case (Char b0 b1 b2 b3 b4 b5 b6 b7)
  assume "is_digit c"
  then show ?thesis unfolding Char
    by (cases b0; cases b1; cases b2; cases b3; cases b4; cases b5; cases b6; cases b7;
        simp add: lower_chr_bits is_digit_def)
qed

lemma lower_chr_digit: "is_digit d \<Longrightarrow> lower_chr c = d \<Longrightarrow> c = d"
  using is_digit_lower is_digit_fixed by metis

lemma lower_chr_NL: "(lower_chr c = NL) = (c = NL)"
proof (cases c)
  case (Char b0 b1 b2 b3 b4 b5 b6 b7)
  show ?thesis unfolding Char
    by (cases b0; cases b1; cases b2; cases b3; cases b4; cases b5; cases b6; cases b7;
        simp add: lower_chr_bits)
qed

lemma atom_ok_lower: "atom_ok True a (lower_chr c) = atom_ok True a c"
  by (cases a) (simp_all add: lower_chr_idem is_digit_lower is_space_lower is_word_lower)

lemma lit_prefix_lower: "lit_prefix True w (lower s) = lit_prefix True w s"
proof (induction "True" w s rule: lit_prefix.induct)
  case (3 a as c cs)
  then show ?case using atom_ok_lower[of "Ch a" c] by (simp add: lower_def)
qed (simp_all add: lower_def)

lemma lower_simps:
  "lower [] = []" "lower (c # cs) = lower_chr c # lower cs"
  "drop n (lower s) = lower (drop n s)" "take n (lower s) = lower (take n s)"
  "length (lower s) = length s"
  by (simp_all add: lower_def drop_map take_map)

lemma lower_Eos: "(lower s = [] \<or> lower s = [NL]) = (s = [] \<or> s = [NL])"
  by (cases s; cases "tl s") (auto simp: lower_simps lower_chr_NL)

lemma mt_lower: "mt True r (lower s) p ms = mt True r s p ms"
proof (induction "True" r s p ms rule: mt.induct)
  case (1 s p ms)
  show ?case by simp
next
  case (2 r s p ms)
  then show ?case by simp
next
  case (3 r s p ms)
  then show ?case using lower_Eos[of s] by (cases "s = [] \<or> s = [NL]") simp_all
next
  case (4 r s p ms)
  show ?case by simp
next
  case (5 w ws r s p ms)
  show ?case
  proof (cases "lit_prefix True w s")
    case True
    then show ?thesis using 5
      by (cases "mt True r (drop (length w) s) (p + length w) ms")
         (simp_all add: lit_prefix_lower lower_simps)
  next
    case False
    then show ?thesis using 5 by (simp add: lit_prefix_lower lower_simps)
  qed
next
  case (6 a lo hi r p ms)
  then show ?case by (simp add: lower_simps)
next
  case (7 a lo hi r c cs p ms)
  show ?case
  proof (cases "hi \<noteq> Some 0 \<and> atom_ok True a c")
    case True
    note ih1 = "7.hyps"(1)[OF True]
    show ?thesis
    proof (cases "mt True (Rep a (lo - 1) (map_option (\<lambda>h. h - 1) hi) # r) cs (Suc p) ms")
      case None
      show ?thesis
      proof (cases "lo = 0")
        case z: True
        from "7.hyps"(2)[OF True None z] show ?thesis
          using True None ih1 z by (simp add: lower_simps atom_ok_lower)
      next
        case nz: False
        then show ?thesis using True None ih1 by (simp add: lower_simps atom_ok_lower)
      qed
    next
      case (Some x)
      then show ?thesis using True ih1 by (simp add: lower_simps atom_ok_lower)
    qed
  next
    case False
    show ?thesis
    proof (cases "lo = 0")
      case z: True
      from "7.hyps"(3)[OF False z] show ?thesis
        using False z by (auto simp add: lower_simps atom_ok_lower)
    next
      case nz: False
      then show ?thesis using False by (auto simp add: lower_simps atom_ok_lower)
    qed
  qed
qed

lemma search_from_lower: "search_from True r (lower s) p = search_from True r s p"
proof (induction s arbitrary: p)
  case Nil
  then show ?case by (simp add: lower_simps)
next
  case (Cons c cs)
  have "match_at True r (lower (c # cs)) p = match_at True r (c # cs) p"
    by (simp add: match_at_def mt_lower)
  then show ?case using Cons
    by (cases "match_at True r (c # cs) p") (simp_all add: lower_simps)
qed

lemma re_search_lower: "re_search True r (lower s) = re_search True r s"
  by (simp add: re_search_def search_from_lower)

lemma take4_nth:
  "4 \<le> length s \<Longrightarrow> take 4 s = [s ! 0, s ! 1, s ! 2, s ! 3]"
  by (cases s rule: list4_cases) simp_all

lemma year_group_lower:
  assumes "re_search True (h @ year_tail) t = Some m" "even (count_list h Mark)"
  shows "lower (last (re_groups t m)) = last (re_groups t m)"
proof -
  from assms(1) obtain n where
    n: "n \<le> length t" "mt True (h @ year_tail) (drop n t) (0 + n) [] = Some (m_end m, m_marks m)"
    unfolding re_search_def using search_from_Some by blast
  from mt_append[OF n(2)] obtain k ms1 where
    k: "length ms1 = length ([]::nat list) + count_list h Mark"
       "mt True year_tail (drop k (drop n t)) (0 + n + k) ms1 = Some (m_end m, m_marks m)"
    by blast
  define s where "s = drop k (drop n t)"
  have k2: "mt True year_tail s (0 + n + k) ms1 = Some (m_end m, m_marks m)"
    using k(2) by (simp add: s_def)
  have c: "4 \<le> length s \<and> atom_ok True (Ch CHR ''2'') (s ! 0) \<and>
    atom_ok True (Ch CHR ''0'') (s ! 1) \<and> is_digit (s ! 2) \<and> is_digit (s ! 3) \<and>
    m_marks m = ms1 @ [n + k, n + k + 4]"
    using k2 unfolding mt_year_tail_eq by (auto split: if_splits)
  have d2: "is_digit CHR ''2''" and d0: "is_digit CHR ''0''" by (simp_all add: is_digit_def)
  have l2: "lower_chr CHR ''2'' = CHR ''2''" using is_digit_fixed[OF d2] .
  have l0: "lower_chr CHR ''0'' = CHR ''0''" using is_digit_fixed[OF d0] .
  have "s ! 0 = CHR ''2''" using c l2 lower_chr_digit[OF d2] by simp
  moreover have "s ! 1 = CHR ''0''" using c l0 lower_chr_digit[OF d0] by simp
  moreover have "take 4 s = [s ! 0, s ! 1, s ! 2, s ! 3]" using c take4_nth by blast
  ultimately have "lower (take 4 s) = take 4 s"
    using c l2 l0 is_digit_fixed by (simp add: lower_simps)
  moreover have "last (re_groups t m) = take 4 s"
  proof -
    have "spans (m_marks m) = spans ms1 @ [(n + k, n + k + 4)]"
      using c k(1) assms(2) by (simp add: spans_snoc2)
    then have "last (re_groups t m) = slice (n + k) (n + k + 4) t"
      by (simp add: re_groups_def)
    also have "\<dots> = take 4 (drop (n + k) t)" by (simp add: slice_def)
    also have "drop (n + k) t = s" by (simp add: s_def add.commute)
    finally show ?thesis .
  qed
  ultimately show ?thesis by simp
qed

lemma slice_lower: "slice a b (lower t) = lower (slice a b t)"
  by (simp add: slice_def lower_simps)

lemma re_groups_lower: "re_groups (lower t) m = map lower (re_groups t m)"
  by (simp add: re_groups_def slice_lower split_def)

lemma year_group_same:
  assumes "re_search True (h @ year_tail) t = Some m" "even (count_list h Mark)"
  shows "last (re_groups (lower t) m) = last (re_groups t m)"
    and "re_groups (lower t) m ! (count_list h Mark div 2) = re_groups t m ! (count_list h Mark div 2)"
proof -
  from year_match_groups[OF assms] obtain g where
    g: "length (re_groups t m) = Suc (count_list h Mark div 2)"
       "last (re_groups t m) = g" "re_groups t m ! (count_list h Mark div 2) = g"
    by blast
  have ne: "re_groups t m \<noteq> []" using g(1) by auto
  have lg: "lower g = g" using year_group_lower[OF assms] g(2) by simp
  show "last (re_groups (lower t) m) = last (re_groups t m)"
    using ne lg g(2) by (simp add: re_groups_lower last_map)
  show "re_groups (lower t) m ! (count_list h Mark div 2) = re_groups t m ! (count_list h Mark div 2)"
    using g(1,3) lg by (simp add: re_groups_lower)
qed

lemma year_spec_lower: "year_spec (lower t) = year_spec t"
proof -
  have s1: "re_groups (lower t) m ! 1 = re_groups t m ! 1"
    if "re_search True (dmy_head @ year_tail) t = Some m" for m
    using year_group_same(2)[OF that] by (simp add: count_dmy_head)
  have s2: "last (re_groups (lower t) m) = last (re_groups t m)"
    if "re_search True year_tail t = Some m" for m
    using year_group_same(1)[of "[]" t m] that by simp
  have s3: "last (re_groups (lower t) m) = last (re_groups t m)"
    if "re_search True (label_head w @ year_tail) t = Some m" for m w
    using year_group_same(1)[OF that] by (simp add: count_label_head)
  show ?thesis
    unfolding year_spec_def re_search_lower
    using s1 s2 s3 by (auto split: option.splits)
qed

lemma year_spec_case_insensitive: "lower a = lower b \<Longrightarrow> year_spec a = year_spec b"
  using year_spec_lower[of a] year_spec_lower[of b] by simp

lemma lower_lower: "lower (lower s) = lower s"
  by (simp add: lower_def lower_chr_idem)

section \<open>Which steps of the extraction can raise\<close>

text \<open>
  The groups that are read exist, so no \<open>IndexError\<close> arises. A marker is a run of digits;
  \<^verbatim>\<open>int\<close> raises \<open>ValueError\<close> on a run of more than 4300, and that is the only error
  the extraction can end in.
\<close>

lemma re_group_ok:
  assumes "mt ic r s p [] = Some (m_end m, m_marks m)" "1 \<le> k" "2 * k \<le> count_list r Mark"
  shows "\<exists>g. re_group t m k = Inr g"
proof -
  have "length (m_marks m) = count_list r Mark" using mt_bounds(3)[OF assms(1)] by simp
  then have "k \<le> length (re_groups t m)"
    using assms(3) by (simp add: re_groups_def length_spans)
  then show ?thesis using assms(2) by (simp add: re_group_def)
qed

lemma marks_of_ok: "\<exists>mk. marks_of content = Inr mk"
proof (cases "re_search False marks_pattern content")
  case None
  then show ?thesis by (simp add: marks_of_def)
next
  case (Some m)
  then obtain n where "mt False marks_pattern (drop n content) (0 + n) [] = Some (m_end m, m_marks m)"
    unfolding re_search_def using search_from_Some by blast
  moreover have "count_list marks_pattern Mark = 2" by (simp add: marks_pattern_def)
  ultimately obtain g where "re_group content m 1 = Inr g"
    using re_group_ok[of False marks_pattern _ _ m 1 content] by auto
  then show ?thesis by (simp add: marks_of_def Some)
qed

lemma question_pattern_match:
  assumes "mt False question_pattern s p [] = Some (e, ms)"
  shows "\<exists>a n. 1 \<le> n \<and> a + n \<le> length s \<and> ms = [p + a, p + a + n] \<and>
               (\<forall>c \<in> set (take n (drop a s)). is_digit c)"
proof -
  obtain s2 where s: "s = CHR ''Q'' # CHR ''.'' # s2"
    and m2: "mt False [Star Space, Mark, Plus Digit, Mark, One (Ch CHR '')'')] s2 (p + 2) [] = Some (e, ms)"
    using assms unfolding question_pattern_def mt_One
    by (auto split: list.splits if_splits)
  from mt_Rep_dest[OF m2] obtain n2 where
    n2: "n2 \<le> length s2"
        "mt False [Mark, Plus Digit, Mark, One (Ch CHR '')'')] (drop n2 s2) (p + 2 + n2) [] = Some (e, ms)"
    by blast
  then have m3: "mt False [Plus Digit, Mark, One (Ch CHR '')'')] (drop n2 s2) (p + 2 + n2) [p + 2 + n2]
                 = Some (e, ms)" by simp
  from mt_Rep_dest[OF m3] obtain n3 where
    n3: "1 \<le> n3" "n3 \<le> length (drop n2 s2)"
        "\<forall>c \<in> set (take n3 (drop n2 s2)). atom_ok False Digit c"
        "mt False [Mark, One (Ch CHR '')'')] (drop n3 (drop n2 s2)) (p + 2 + n2 + n3) [p + 2 + n2]
         = Some (e, ms)"
    by blast
  have "ms = [p + 2 + n2, p + 2 + n2 + n3]"
    using n3(4) unfolding mt.simps(2) mt_One by (auto split: list.splits if_splits)
  moreover have "2 + n2 + n3 \<le> length s" using n2(1) n3(2) s by simp
  moreover have "take n3 (drop (2 + n2) s) = take n3 (drop n2 s2)" using s by simp
  ultimately have "1 \<le> n3 \<and> (2 + n2) + n3 \<le> length s \<and> ms = [p + (2 + n2), p + (2 + n2) + n3] \<and>
               (\<forall>c \<in> set (take n3 (drop (2 + n2) s)). is_digit c)"
    using n3(1,3) by (simp add: add.assoc)
  then show ?thesis by blast
qed

text \<open>The only way the conversion fails on the digits of a marker is the limit.\<close>

lemma py_int_digits:
  assumes "s \<noteq> []" "list_all is_digit s"
  shows "if length s \<le> int_max_str_digits then (\<exists>v. py_int s = Inr v)
         else py_int s = Inl ValueError"
  using assms by (simp add: py_int_def)

lemma question_match_digits:
  assumes "m \<in> set (re_finditer False question_pattern t)"
  shows "\<exists>g. re_group t m 1 = Inr g \<and> g \<noteq> [] \<and> list_all is_digit g"
proof -
  from assms obtain n where
    n: "n \<le> length t" "m_start m = 0 + n"
       "mt False question_pattern (drop n t) (0 + n) [] = Some (m_end m, m_marks m)"
    unfolding re_finditer_def using finditer_from_set by blast
  from question_pattern_match[OF n(3)] obtain a k where
    k: "1 \<le> k" "a + k \<le> length (drop n t)" "m_marks m = [0 + n + a, 0 + n + a + k]"
       "\<forall>c \<in> set (take k (drop a (drop n t))). is_digit c" by blast
  have g: "re_groups t m = [take k (drop (n + a) t)]"
    using k(1,3) by (simp add: re_groups_def slice_def)
  have "take k (drop (n + a) t) = take k (drop a (drop n t))" by (simp add: add.commute)
  moreover have "take k (drop a (drop n t)) \<noteq> []" using k(1,2) by auto
  ultimately have "re_group t m 1 = Inr (take k (drop (n + a) t)) \<and>
                   take k (drop (n + a) t) \<noteq> [] \<and> list_all is_digit (take k (drop (n + a) t))"
    using k(4) by (simp add: re_group_def g list_all_iff)
  then show ?thesis by blast
qed

lemma collect_positions_cases:
  assumes "\<forall>m \<in> set ms. \<exists>g. re_group t m 1 = Inr g \<and> g \<noteq> [] \<and> list_all is_digit g"
  shows "if list_all (\<lambda>m. length (marker_digits t m) \<le> int_max_str_digits) ms
         then (\<exists>qs. collect_positions t pbs ms = Inr qs \<and>
                 map start qs = map m_start ms \<and>
                 map page_num qs = map (\<lambda>m. find_page pbs (m_start m) 1) ms)
         else collect_positions t pbs ms = Inl ValueError"
  using assms
proof (induction ms)
  case Nil
  then show ?case by simp
next
  case (Cons m ms)
  then obtain g where g: "re_group t m 1 = Inr g" "g \<noteq> []" "list_all is_digit g" by auto
  have md: "marker_digits t m = g" using g(1) by (simp add: marker_digits_def)
  note pi = py_int_digits[OF g(2,3)]
  have ih: "if list_all (\<lambda>m. length (marker_digits t m) \<le> int_max_str_digits) ms
         then (\<exists>qs. collect_positions t pbs ms = Inr qs \<and>
                 map start qs = map m_start ms \<and>
                 map page_num qs = map (\<lambda>m. find_page pbs (m_start m) 1) ms)
         else collect_positions t pbs ms = Inl ValueError"
    using Cons by simp
  show ?case
  proof (cases "length g \<le> int_max_str_digits")
    case False
    then have "py_int g = Inl ValueError" using pi by simp
    then show ?thesis using False g(1) md by simp
  next
    case True
    then obtain v where v: "py_int g = Inr v" using pi by auto
    show ?thesis
    proof (cases "list_all (\<lambda>m. length (marker_digits t m) \<le> int_max_str_digits) ms")
      case False
      then have "collect_positions t pbs ms = Inl ValueError" using ih by simp
      then show ?thesis using False g(1) v by simp
    next
      case all: True
      then obtain qs where "collect_positions t pbs ms = Inr qs" "map start qs = map m_start ms"
        "map page_num qs = map (\<lambda>m. find_page pbs (m_start m) 1) ms" using ih by auto
      then show ?thesis using all True md g(1) v by simp
    qed
  qed
qed

lemma scan_positions_cases:
  "if list_all (\<lambda>m. length (marker_digits (all_text_of pages) m) \<le> int_max_str_digits)
        (re_finditer False question_pattern (all_text_of pages))
   then (\<exists>found. scan_positions pages = Inr found \<and>
     map start found = map m_start (re_finditer False question_pattern (all_text_of pages)) \<and>
     map page_num found =
       map (\<lambda>m. find_page (page_breaks_of pages) (m_start m) 1)
           (re_finditer False question_pattern (all_text_of pages)))
   else scan_positions pages = Inl ValueError"
  unfolding scan_positions_def
  using question_match_digits by (intro collect_positions_cases) blast

lemma scan_positions_Inr:
  assumes "scan_positions pages = Inr found"
  shows "list_all (\<lambda>m. length (marker_digits (all_text_of pages) m) \<le> int_max_str_digits)
           (re_finditer False question_pattern (all_text_of pages))"
    and "map start found = map m_start (re_finditer False question_pattern (all_text_of pages))"
    and "map page_num found =
           map (\<lambda>m. find_page (page_breaks_of pages) (m_start m) 1)
               (re_finditer False question_pattern (all_text_of pages))"
  using scan_positions_cases[of pages] assms by (auto split: if_splits)

lemma scan_positions_Inl:
  assumes "scan_positions pages = Inl e"
  shows "e = ValueError"
    and "\<not> list_all (\<lambda>m. length (marker_digits (all_text_of pages) m) \<le> int_max_str_digits)
           (re_finditer False question_pattern (all_text_of pages))"
  using scan_positions_cases[of pages] assms by (auto split: if_splits)

lemma make_question_ok:
  "\<exists>mk. marks_of (content_of t qps i) = Inr mk \<and>
     make_question t cy qps i =
       Inr (if length (content_of t qps i) > 20
            then Some \<lparr>question_number = number (qps ! i),
                       question_preview = shorten (preview_text (content_of t qps i)),
                       complete_content = content_of t qps i,
                       marks = mk,
                       chapter = None,
                       year = year_or_unknown cy,
                       page = page_num (qps ! i)\<rparr>
            else None)"
proof -
  obtain mk where "marks_of (content_of t qps i) = Inr mk" using marks_of_ok by blast
  then show ?thesis by (simp add: make_question_def Let_def)
qed

lemma build_questions_ok:
  "\<exists>new. build_questions t cy qps idx acc = Inr (acc @ new) \<and>
     list_all2 (made_by t cy qps) (filter (\<lambda>i. 20 < length (content_of t qps i)) idx) new"
proof (induction idx arbitrary: acc)
  case Nil
  then show ?case by simp
next
  case (Cons i idx)
  obtain mk where mk: "marks_of (content_of t qps i) = Inr mk"
    and mq: "make_question t cy qps i =
       Inr (if length (content_of t qps i) > 20
            then Some \<lparr>question_number = number (qps ! i),
                       question_preview = shorten (preview_text (content_of t qps i)),
                       complete_content = content_of t qps i,
                       marks = mk,
                       chapter = None,
                       year = year_or_unknown cy,
                       page = page_num (qps ! i)\<rparr>
            else None)"
    using make_question_ok by blast
  show ?case
  proof (cases "20 < length (content_of t qps i)")
    case False
    from Cons.IH[of acc] obtain new where
      "build_questions t cy qps idx acc = Inr (acc @ new)"
      "list_all2 (made_by t cy qps) (filter (\<lambda>i. 20 < length (content_of t qps i)) idx) new"
      by blast
    then show ?thesis using False mq by auto
  next
    case True
    let ?q = "\<lparr>question_number = number (qps ! i),
                question_preview = shorten (preview_text (content_of t qps i)),
                complete_content = content_of t qps i,
                marks = mk, chapter = None, year = year_or_unknown cy,
                page = page_num (qps ! i)\<rparr>"
    from Cons.IH[of "acc @ [?q]"] obtain new where
      new: "build_questions t cy qps idx (acc @ [?q]) = Inr ((acc @ [?q]) @ new)"
      "list_all2 (made_by t cy qps) (filter (\<lambda>i. 20 < length (content_of t qps i)) idx) new"
      by blast
    have "made_by t cy qps i ?q" by (simp add: made_by_def mk)
    then have "build_questions t cy qps (i # idx) acc = Inr (acc @ (?q # new)) \<and>
       list_all2 (made_by t cy qps) (filter (\<lambda>i. 20 < length (content_of t qps i)) (i # idx)) (?q # new)"
      using True mq new by simp
    then show ?thesis by blast
  qed
qed

text \<open>
  The extraction fails exactly when the scan of the markers does, and with the same
  error; otherwise its records are the ones the main loop builds for the sorted markers
  with a long enough content.
\<close>

lemma extract_Inl_iff: "extract_questions_with_year pages = Inl e \<longleftrightarrow> scan_positions pages = Inl e"
proof -
  obtain cy where cy: "infer_year year_patterns (all_text_of pages) = Inr cy"
    using infer_year_spec by blast
  show ?thesis
  proof (cases "scan_positions pages")
    case (Inl e')
    then show ?thesis using cy by (simp add: extract_questions_with_year_def Let_def)
  next
    case (Inr found)
    obtain rs where
      "build_questions (all_text_of pages) cy (sort_key number found)
         [0 ..< length (sort_key number found)] [] = Inr rs"
      using build_questions_ok[of "all_text_of pages" cy "sort_key number found" _ "[]"] by auto
    then show ?thesis using cy Inr by (simp add: extract_questions_with_year_def Let_def)
  qed
qed

lemma extract_Inr:
  assumes "extract_questions_with_year pages = Inr rs"
  shows "\<exists>found cy.
     scan_positions pages = Inr found \<and>
     infer_year year_patterns (all_text_of pages) = Inr cy \<and>
     year_or_unknown cy = year_spec (all_text_of pages) \<and>
     list_all2 (made_by (all_text_of pages) cy (sort_key number found))
       (filter (\<lambda>i. 20 < length (content_of (all_text_of pages) (sort_key number found) i))
          [0 ..< length found]) rs"
proof -
  obtain cy where cy: "infer_year year_patterns (all_text_of pages) = Inr cy"
    "year_or_unknown cy = year_spec (all_text_of pages)" using infer_year_spec by blast
  obtain found where f: "scan_positions pages = Inr found"
    using assms extract_Inl_iff[of pages] by (cases "scan_positions pages") auto
  let ?t = "all_text_of pages" and ?qps = "sort_key number found"
  from build_questions_ok[of ?t cy ?qps "[0 ..< length ?qps]" "[]"] obtain rs' where
    rs: "build_questions ?t cy ?qps [0 ..< length ?qps] [] = Inr rs'"
    "list_all2 (made_by ?t cy ?qps)
       (filter (\<lambda>i. 20 < length (content_of ?t ?qps i)) [0 ..< length ?qps]) rs'"
    by auto
  have "extract_questions_with_year pages = Inr rs'"
    using f cy(1) rs(1) by (simp add: extract_questions_with_year_def Let_def)
  then have "rs' = rs" using assms by simp
  then show ?thesis using f cy rs(2) by auto
qed

lemma extract_returns_iff:
  "(\<exists>rs. extract_questions_with_year pages = Inr rs) \<longleftrightarrow>
     list_all (\<lambda>m. length (marker_digits (all_text_of pages) m) \<le> int_max_str_digits)
       (re_finditer False question_pattern (all_text_of pages))"
proof
  assume "\<exists>rs. extract_questions_with_year pages = Inr rs"
  then obtain rs found where "scan_positions pages = Inr found" using extract_Inr by blast
  then show "list_all (\<lambda>m. length (marker_digits (all_text_of pages) m) \<le> int_max_str_digits)
       (re_finditer False question_pattern (all_text_of pages))"
    by (rule scan_positions_Inr(1))
next
  assume a: "list_all (\<lambda>m. length (marker_digits (all_text_of pages) m) \<le> int_max_str_digits)
       (re_finditer False question_pattern (all_text_of pages))"
  show "\<exists>rs. extract_questions_with_year pages = Inr rs"
  proof (cases "extract_questions_with_year pages")
    case (Inl e)
    then have "scan_positions pages = Inl e" by (simp add: extract_Inl_iff)
    from scan_positions_Inl(2)[OF this] a show ?thesis by simp
  next
    case (Inr rs)
    then show ?thesis by blast
  qed
qed

lemma list_all2_right:
  assumes "list_all2 P xs ys" "\<And>x y. x \<in> set xs \<Longrightarrow> P x y \<Longrightarrow> Q y"
  shows "\<forall>y \<in> set ys. Q y"
  using assms by (induction rule: list_all2_induct) auto

lemma list_all2_map_eq:
  assumes "list_all2 P xs ys" "\<And>x y. P x y \<Longrightarrow> f y = g x"
  shows "map f ys = map g xs"
  using assms by (induction rule: list_all2_induct) auto

lemma list_all2_mono_set:
  assumes "list_all2 P xs ys" "\<And>x y. x \<in> set xs \<Longrightarrow> P x y \<Longrightarrow> Q x y"
  shows "list_all2 Q xs ys"
  using assms by (induction rule: list_all2_induct) auto

section \<open>Facts about pages and scan order\<close>

lemma dict_set_new: "k \<notin> set (map fst d) \<Longrightarrow> dict_set d k v = d @ [(k, v)]"
  by (induction d) auto

lemma page_marker_nonempty: "page_marker n \<noteq> []"
  by (simp add: page_marker_def)

lemma breaks_ok_step:
  assumes "breaks_ok t pbs"
  shows "breaks_ok (t @ page_marker n @ x) (dict_set pbs (length t) n)"
proof -
  have new: "length t \<notin> set (map fst pbs)" using assms by (auto simp: breaks_ok_def)
  have d: "dict_set pbs (length t) n = pbs @ [(length t, n)]" by (rule dict_set_new[OF new])
  have "sorted_wrt (<) (map fst (pbs @ [(length t, n)]))"
    using assms by (auto simp: breaks_ok_def sorted_wrt_append)
  moreover have "\<forall>k \<in> set (map fst (pbs @ [(length t, n)])). k < length (t @ page_marker n @ x)"
    using assms page_marker_nonempty[of n] by (auto simp: breaks_ok_def)
  moreover have "\<exists>v. (0, v) \<in> set (pbs @ [(length t, n)])"
    using assms by (cases "t = []") (auto simp: breaks_ok_def)
  ultimately show ?thesis unfolding d by (simp add: breaks_ok_def)
qed

lemma read_pages_ok:
  "breaks_ok t pbs \<Longrightarrow> breaks_ok (fst (read_pages pages n t pbs)) (snd (read_pages pages n t pbs))"
proof (induction pages arbitrary: n t pbs)
  case Nil
  then show ?case by simp
next
  case (Cons tx pages)
  show ?case
  proof (cases tx)
    case None
    then show ?thesis using Cons by simp
  next
    case (Some x)
    show ?thesis
    proof (cases "x = []")
      case True
      then show ?thesis using Cons Some by simp
    next
      case False
      have "breaks_ok (t @ page_marker n @ x) (dict_set pbs (length t) n)"
        using Cons.prems by (rule breaks_ok_step)
      from Cons.IH[OF this] show ?thesis using Some False by simp
    qed
  qed
qed

lemma document_breaks_ok: "breaks_ok (all_text_of pages) (page_breaks_of pages)"
  unfolding all_text_of_def page_breaks_of_def
  by (rule read_pages_ok) (simp add: breaks_ok_def)

lemma find_page_last:
  "find_page pbs pos d =
     (if filter (\<lambda>(k, v). k \<le> pos) pbs = [] then d
      else snd (last (filter (\<lambda>(k, v). k \<le> pos) pbs)))"
  by (induction pbs arbitrary: d) (auto)

lemma sorted_last_greatest:
  fixes xs :: "(nat \<times> 'v) list"
  shows "sorted_wrt (<) (map fst xs) \<Longrightarrow> x \<in> set xs \<Longrightarrow> fst x \<le> fst (last xs)"
proof (induction xs)
  case Nil
  then show ?case by simp
next
  case (Cons y ys)
  show ?case
  proof (cases "ys = []")
    case True
    then show ?thesis using Cons.prems by simp
  next
    case False
    then have l: "last (y # ys) = last ys" by simp
    have "last ys \<in> set ys" using False by simp
    then have "fst y < fst (last ys)" using Cons.prems(1) by auto
    moreover have "x \<in> set ys \<Longrightarrow> fst x \<le> fst (last ys)" using Cons by simp
    ultimately show ?thesis using Cons.prems(2) l by auto
  qed
qed

lemma find_page_owner:
  assumes "sorted_wrt (<) (map fst pbs)" "(0, v0) \<in> set pbs"
  shows "owner pbs pos (find_page pbs pos d)"
proof -
  let ?xs = "filter (\<lambda>(k, v). k \<le> pos) pbs"
  have ne: "?xs \<noteq> []" using assms(2) by (auto simp: filter_empty_conv)
  then have fp: "find_page pbs pos d = snd (last ?xs)" by (simp add: find_page_last)
  have in_xs: "last ?xs \<in> set ?xs" using ne by (rule last_in_set)
  then have in_pbs: "last ?xs \<in> set pbs" and le: "fst (last ?xs) \<le> pos" by auto
  have s: "sorted_wrt (<) (map fst ?xs)"
    using assms(1) by (simp add: sorted_wrt_map sorted_wrt_filter)
  have g: "k' \<le> fst (last ?xs)" if "(k', v') \<in> set pbs" "k' \<le> pos" for k' v'
  proof -
    have "(k', v') \<in> set ?xs" using that by simp
    from sorted_last_greatest[OF s this] show ?thesis by simp
  qed
  obtain k v where kv: "last ?xs = (k, v)" by (cases "last ?xs")
  have "(k, v) \<in> set pbs \<and> v = find_page pbs pos d \<and> k \<le> pos \<and>
        (\<forall>(k', v') \<in> set pbs. k' \<le> pos \<longrightarrow> k' \<le> k)"
    using in_pbs le g fp kv by auto
  then show ?thesis unfolding owner_def by blast
qed

lemma finditer_empty: "finditer_from False question_pattern [] p k = []"
  by (simp add: match_at_def question_pattern_def)

section \<open>Facts about the preview\<close>

lemma sub_from_no_match:
  "search_from ic r s p = None \<Longrightarrow> sub_from ic r repl s 0 = s"
proof (induction s arbitrary: p)
  case Nil
  then have "mt ic r [] p [] = None" by (simp add: match_at_None)
  then have "mt ic r [] 0 [] = None" using mt_None_indep by blast
  then have "match_at ic r [] 0 = None" by (simp add: match_at_None)
  then show ?case by simp
next
  case (Cons c cs)
  have a: "match_at ic r (c # cs) p = None" and b: "search_from ic r cs (Suc p) = None"
    using Cons.prems by (auto split: option.splits)
  from a have "mt ic r (c # cs) p [] = None" by (simp add: match_at_None)
  then have "mt ic r (c # cs) 0 [] = None" using mt_None_indep by blast
  then have "match_at ic r (c # cs) 0 = None" by (simp add: match_at_None)
  then show ?case using Cons.IH[OF b] by simp
qed

lemma sub_from_skip:
  "k \<le> length s \<Longrightarrow> sub_from ic r repl s k = sub_from ic r repl (drop k s) 0"
proof (induction s arbitrary: k)
  case Nil
  then show ?case by simp
next
  case (Cons c cs)
  show ?case
  proof (cases k)
    case 0
    then show ?thesis by simp
  next
    case (Suc j)
    then show ?thesis using Cons.IH[of j] Cons.prems by simp
  qed
qed

text \<open>
  On a line that holds no fragment other than a leading one, removing every fragment, as
  \<^verbatim>\<open>re.sub\<close> does, is stripping the leading one.
\<close>

lemma re_sub_leading:
  assumes "re_search False marker_strip_pattern (strip_leading line) = None"
  shows "re_sub False marker_strip_pattern [] line = strip_leading line"
proof (cases "match_at False marker_strip_pattern line 0")
  case None
  then have "strip_leading line = line" by (simp add: strip_leading_def)
  then have "search_from False marker_strip_pattern line 0 = None"
    using assms by (simp add: re_search_def)
  then have "sub_from False marker_strip_pattern [] line 0 = line" by (rule sub_from_no_match)
  then show ?thesis using \<open>strip_leading line = line\<close> by (simp add: re_sub_def)
next
  case (Some m)
  have sl: "strip_leading line = drop (m_end m) line" using Some by (simp add: strip_leading_def)
  have mt: "mt False marker_strip_pattern line 0 [] = Some (m_end m, m_marks m)"
    using match_at_Some[OF Some] by simp
  have pos: "0 < m_end m" using iterated_patterns_consume[OF _ mt] by simp
  have le: "m_end m \<le> length line" using mt_bounds(2)[OF mt] by simp
  obtain c cs where l: "line = c # cs" using pos le by (cases line) auto
  have no: "search_from False marker_strip_pattern (drop (m_end m) line) 0 = None"
    using assms sl by (simp add: re_search_def)
  have d: "drop (m_end m - 1) cs = drop (m_end m) line" using pos l by (cases "m_end m") simp_all
  have "sub_from False marker_strip_pattern [] line 0 =
          sub_from False marker_strip_pattern [] cs (m_end m - 1)"
    using Some pos unfolding l by simp
  also have "\<dots> = sub_from False marker_strip_pattern [] (drop (m_end m - 1) cs) 0"
    using le l by (intro sub_from_skip) simp
  also have "\<dots> = drop (m_end m) line"
    unfolding d using no by (rule sub_from_no_match)
  finally show ?thesis by (simp add: re_sub_def sl)
qed

lemma first_meaningful_leading:
  assumes "list_all (\<lambda>line. re_search False marker_strip_pattern (strip_leading line) = None) ls"
  shows "first_meaningful ls =
     (case find (\<lambda>line. 10 < length (strip (strip_leading line))) ls of
        Some line \<Rightarrow> strip (strip_leading line) | None \<Rightarrow> [])"
  using assms by (induction ls) (auto simp: re_sub_leading Let_def)

lemma preview_text_chosen:
  assumes "leading_only content"
  shows "preview_text content = chosen_line content"
proof -
  note fm = first_meaningful_leading[OF assms[unfolded leading_only_def]]
  show ?thesis
  proof (cases "find (\<lambda>line. 10 < length (strip (strip_leading line))) (split_nl content)")
    case None
    then show ?thesis by (simp add: preview_text_def chosen_line_def fm Let_def)
  next
    case (Some line)
    then have "10 < length (strip (strip_leading line))" by (auto simp: find_Some_iff)
    then have "strip (strip_leading line) \<noteq> []" by auto
    then show ?thesis using Some by (simp add: preview_text_def chosen_line_def fm Let_def)
  qed
qed

lemma shorten_length: "length (shorten p) \<le> 153"
  by (simp add: shorten_def)

section \<open>A marker with more digits than the limit\<close>

lemma digit_not_space: "is_digit c \<Longrightarrow> \<not> is_space c"
  by (auto simp: is_digit_def is_space_def)

text \<open>A greedy run of digits takes all of them when the rest of the pattern then matches.\<close>

lemma mt_digits_greedy:
  assumes "list_all is_digit ds" "lo \<le> length ds" "\<not> is_digit c"
    and "mt ic r (c # cs) (p + length ds) ms = Some res"
  shows "mt ic (Rep Digit lo None # r) (ds @ c # cs) p ms = Some res"
  using assms
proof (induction ds arbitrary: lo p)
  case Nil
  then show ?case by simp
next
  case (Cons d ds)
  have "mt ic (Rep Digit (lo - 1) None # r) (ds @ c # cs) (Suc p) ms = Some res"
    using Cons.IH[of "lo - 1" "Suc p"] Cons.prems by simp
  then show ?case using Cons.prems(1) by simp
qed

lemma marker_match:
  assumes "ds \<noteq> []" "list_all is_digit ds"
  shows "match_at False question_pattern
           (CHR ''Q'' # CHR ''.'' # CHR '' '' # ds @ CHR '')'' # rest) p =
         Some \<lparr>m_start = p, m_end = p + 4 + length ds, m_marks = [p + 3, p + 3 + length ds]\<rparr>"
proof -
  obtain d ds' where ds: "ds = d # ds'" using assms(1) by (cases ds) auto
  have nd: "\<not> is_space d" using assms(2) ds by (simp add: digit_not_space)
  let ?tail = "[Mark, Plus Digit, Mark, One (Ch CHR '')'')]"
  have close: "mt False [Mark, One (Ch CHR '')'')] (CHR '')'' # rest) (p + 3 + length ds) [p + 3] =
               Some (p + 4 + length ds, [p + 3, p + 3 + length ds])"
    by (simp add: mt_One mt_Rep_00)
  have digits: "mt False (Plus Digit # [Mark, One (Ch CHR '')'')]) (ds @ CHR '')'' # rest) (p + 3) [p + 3] =
               Some (p + 4 + length ds, [p + 3, p + 3 + length ds])"
    using assms close by (intro mt_digits_greedy) (auto simp: is_digit_def Suc_le_eq)
  then have tail: "mt False ?tail (ds @ CHR '')'' # rest) (p + 3) [] =
               Some (p + 4 + length ds, [p + 3, p + 3 + length ds])"
    by simp
  have sp: "mt False (Star Space # ?tail) (ds @ CHR '')'' # rest) (p + 3) [] =
               Some (p + 4 + length ds, [p + 3, p + 3 + length ds])"
    using tail nd unfolding ds by simp
  have "mt False (Star Space # ?tail) (CHR '' '' # ds @ CHR '')'' # rest) (p + 2) [] =
               Some (p + 4 + length ds, [p + 3, p + 3 + length ds])"
    using sp by (simp add: is_space_def numeral_3_eq_3 numeral_2_eq_2)
  then have "mt False question_pattern (CHR ''Q'' # CHR ''.'' # CHR '' '' # ds @ CHR '')'' # rest) p [] =
               Some (p + 4 + length ds, [p + 3, p + 3 + length ds])"
    by (simp add: question_pattern_def mt_One numeral_2_eq_2)
  then show ?thesis by (simp add: match_at_def)
qed

lemma no_marker_here: "c \<noteq> CHR ''Q'' \<Longrightarrow> match_at False question_pattern (c # s) p = None"
  by (simp add: match_at_def question_pattern_def mt_One)

lemma finditer_no_marker:
  "\<forall>c \<in> set pre. c \<noteq> CHR ''Q'' \<Longrightarrow>
     finditer_from False question_pattern (pre @ s) p 0 =
     finditer_from False question_pattern s (p + length pre) 0"
  by (induction pre arbitrary: p) (simp_all add: no_marker_here)

lemma finditer_covered:
  "finditer_from ic r (pre @ s) p (length pre) = finditer_from ic r s (p + length pre) 0"
  by (induction pre arbitrary: p) simp_all

lemma finditer_past_end:
  "length s \<le> k \<Longrightarrow> finditer_from False question_pattern s p k = []"
proof (induction s arbitrary: p k)
  case Nil
  show ?case by (simp only: finditer_empty)
next
  case (Cons c cs)
  then show ?case by (cases k) simp_all
qed

text \<open>
  The page \<^verbatim>\<open>Q. 2) b ********** Q. <digits>)\<close>: the scan finds both markers, and the
  digits of the second are the ones written.
\<close>

lemma two_markers_found:
  assumes "ds \<noteq> []" "list_all is_digit ds"
  shows "re_finditer False question_pattern
           (NL # ''--- PAGE 1 ---'' @ NL # ''Q. 2) b ********** Q. '' @ ds @ '')'') =
         [\<lparr>m_start = 16, m_end = 21, m_marks = [19, 20]\<rparr>,
          \<lparr>m_start = 35, m_end = 39 + length ds, m_marks = [38, 38 + length ds]\<rparr>]"
proof -
  let ?pm = "NL # ''--- PAGE 1 ---'' @ [NL]"
  let ?mid = "'' b ********** ''"
  let ?last = "CHR ''Q'' # CHR ''.'' # CHR '' '' # ds @ '')''"
  let ?first = "CHR ''Q'' # CHR ''.'' # CHR '' '' # ''2'' @ CHR '')'' # (?mid @ ?last)"
  let ?m1 = "\<lparr>m_start = 16, m_end = 21, m_marks = [19, 20]\<rparr>"
  let ?m2 = "\<lparr>m_start = 35, m_end = 39 + length ds, m_marks = [38, 38 + length ds]\<rparr>"
  have t: "NL # ''--- PAGE 1 ---'' @ NL # ''Q. 2) b ********** Q. '' @ ds @ '')'' = ?pm @ ?first"
    by simp
  have s1: "finditer_from False question_pattern (?pm @ ?first) 0 0 =
            finditer_from False question_pattern ?first 16 0"
  proof -
    have l: "length ?pm = 16" by simp
    have "\<forall>c \<in> set ?pm. c \<noteq> CHR ''Q''" by simp
    from finditer_no_marker[OF this, of ?first 0, unfolded l] show ?thesis by simp
  qed
  have m1: "match_at False question_pattern ?first 16 = Some ?m1"
    using marker_match[of "''2''" "?mid @ ?last" 16] by (simp add: is_digit_def)
  have s2: "finditer_from False question_pattern ?first 16 0 =
            ?m1 # finditer_from False question_pattern (''. 2)'' @ (?mid @ ?last)) 17 4"
    using m1 by (subst finditer_from.simps(2)) (simp del: finditer_from.simps)
  have s3: "finditer_from False question_pattern (''. 2)'' @ (?mid @ ?last)) 17 4 =
            finditer_from False question_pattern (?mid @ ?last) 21 0"
  proof -
    have l: "length ''. 2)'' = 4" by simp
    from finditer_covered[of False question_pattern "''. 2)''" "?mid @ ?last" 17, unfolded l]
    show ?thesis by simp
  qed
  have s4: "finditer_from False question_pattern (?mid @ ?last) 21 0 =
            finditer_from False question_pattern ?last 35 0"
  proof -
    have l: "length ?mid = 14" by simp
    have "\<forall>c \<in> set ?mid. c \<noteq> CHR ''Q''" by simp
    from finditer_no_marker[OF this, of ?last 21, unfolded l] show ?thesis by simp
  qed
  have m2: "match_at False question_pattern ?last 35 = Some ?m2"
    using marker_match[OF assms, of "[]" 35] by simp
  have s5: "finditer_from False question_pattern ?last 35 0 =
            ?m2 # finditer_from False question_pattern (CHR ''.'' # CHR '' '' # ds @ '')'') 36
                    (3 + length ds)"
    using m2 by (subst finditer_from.simps(2)) (simp del: finditer_from.simps)
  have s6: "finditer_from False question_pattern (CHR ''.'' # CHR '' '' # ds @ '')'') 36
              (3 + length ds) = []"
    by (rule finditer_past_end) simp
  show ?thesis unfolding re_finditer_def t s1 s2 s3 s4 s5 s6 ..
qed

lemma long_marker_text:
  "all_text_of [Some (''Q. 2) b ********** Q. '' @ ds @ '')'')] =
   NL # ''--- PAGE 1 ---'' @ NL # ''Q. 2) b ********** Q. '' @ ds @ '')''"
proof -
  have "page_marker 1 = NL # ''--- PAGE 1 ---'' @ [NL]" by code_simp
  then show ?thesis by (simp add: all_text_of_def)
qed

lemma long_marker_raises:
  assumes "ds \<noteq> []" "list_all is_digit ds" "int_max_str_digits < length ds"
  shows "extract_questions_with_year [Some (''Q. 2) b ********** Q. '' @ ds @ '')'')] =
         Inl ValueError"
proof -
  let ?P = "[Some (''Q. 2) b ********** Q. '' @ ds @ '')'')]"
  let ?t = "NL # ''--- PAGE 1 ---'' @ NL # ''Q. 2) b ********** Q. '' @ ds @ '')''"
  let ?m2 = "\<lparr>m_start = 35, m_end = 39 + length ds, m_marks = [38, 38 + length ds]\<rparr>"
  have "re_groups ?t ?m2 = [ds]" by (simp add: re_groups_def slice_def)
  then have "marker_digits ?t ?m2 = ds" by (simp add: marker_digits_def re_group_def)
  then have "\<not> list_all (\<lambda>m. length (marker_digits ?t m) \<le> int_max_str_digits)
                 (re_finditer False question_pattern ?t)"
    unfolding two_markers_found[OF assms(1,2)] using assms(3) by simp
  then have "scan_positions ?P = Inl ValueError"
    using scan_positions_cases[of ?P] unfolding long_marker_text by simp
  then show ?thesis by (simp add: extract_Inl_iff)
qed

text \<open>
  With the second marker numbered before the first, the two spans of that page are the
  empty text and \<^verbatim>\<open>Q. 2) b\<close>.
\<close>

lemma no_stars_here: "c \<noteq> CHR ''*'' \<Longrightarrow> match_at False star_pattern (c # s) p = None"
  by (simp add: match_at_def star_pattern_def)

lemma finditer_no_stars:
  "\<forall>c \<in> set pre. c \<noteq> CHR ''*'' \<Longrightarrow>
     finditer_from False star_pattern (pre @ s) p 0 =
     finditer_from False star_pattern s (p + length pre) 0"
  by (induction pre arbitrary: p) (simp_all add: no_stars_here)

lemma long_marker_spans:
  fixes ds :: string
  defines "t \<equiv> NL # ''--- PAGE 1 ---'' @ NL # ''Q. 2) b ********** Q. '' @ ds @ '')''"
  defines "qps \<equiv> [\<lparr>number = 1, start = 35, page_num = 1\<rparr>, \<lparr>number = 2, start = 16, page_num = 1\<rparr>]"
  shows "content_of t qps 0 = []" and "content_of t qps (Suc 0) = ''Q. 2) b''"
proof -
  have c0: "clean_content [] = []" by code_simp
  have c1: "clean_content ''Q. 2) b '' = ''Q. 2) b''" by code_simp
  have "end_pos t qps 0 = 16" by (simp add: end_pos_def qps_def)
  then show "content_of t qps 0 = []" by (simp add: content_of_def qps_def slice_def c0)
  let ?stars = "CHR ''*'' # ''********* Q. '' @ ds @ '')''"
  have d: "drop 16 t = ''Q. 2) b '' @ ?stars" by (simp add: t_def)
  have m: "match_at False star_pattern ?stars 8 =
             Some \<lparr>m_start = 8, m_end = 18, m_marks = []\<rparr>"
    by (simp add: match_at_def star_pattern_def)
  have l: "length ''Q. 2) b '' = 8" by simp
  have "\<forall>c \<in> set ''Q. 2) b ''. c \<noteq> CHR ''*''" by simp
  from finditer_no_stars[OF this, of ?stars 0, unfolded l]
  have "re_finditer False star_pattern (drop 16 t) = finditer_from False star_pattern ?stars 8 0"
    unfolding d re_finditer_def by simp
  also have "\<dots> = \<lparr>m_start = 8, m_end = 18, m_marks = []\<rparr> #
                     finditer_from False star_pattern (''********* Q. '' @ ds @ '')'') 9 9"
    using m by (subst finditer_from.simps(2)) (simp del: finditer_from.simps)
  finally have "\<exists>rest. re_finditer False star_pattern (drop 16 t) =
                 \<lparr>m_start = 8, m_end = 18, m_marks = []\<rparr> # rest"
    by blast
  then have "end_pos t qps (Suc 0) = 24" by (auto simp: end_pos_def qps_def)
  moreover have "slice 16 24 t = ''Q. 2) b ''" by (simp add: slice_def t_def)
  ultimately show "content_of t qps (Suc 0) = ''Q. 2) b''"
    by (simp add: content_of_def qps_def c1)
qed

section \<open>Facts about bulk assignment\<close>

lemma any_keyword_iff:
  "any_keyword kws question_lower \<longleftrightarrow>
     (\<exists>keyword \<in> set kws. is_substring (lower keyword) question_lower)"
  by (induction kws) auto

lemma assign_chapter_find:
  "assign_chapter km q =
     (case find (keyword_match (question_preview q)) km of
        None \<Rightarrow> q
      | Some entry \<Rightarrow> q\<lparr>chapter := Some (fst entry)\<rparr>)"
  by (induction km) (auto simp: keyword_match_def any_keyword_iff)

lemma bulk_assign_map:
  "bulk_assign_by_keywords qs km = map (assign_chapter km) qs"
  by (induction qs) auto

section \<open>The extraction on concrete documents\<close>

text \<open>
  Claim C1. The two-page document with the texts \<^verbatim>\<open>Q. 1) What is CAPM? [4]\<close> and
  \<^verbatim>\<open>Q. 2) Explain ruin theory. **********\<close> gives two records, numbers 1 and 2 on pages
  1 and 2, and the second record stops before the run of stars. The first record does not
  get the marks \<^verbatim>\<open>4\<close>: its span ends with the page marker of page 2, whose final newline
  is trimmed away before the page markers are removed, so the marker stays in the content
  and \<^verbatim>\<open>[4]\<close> is no longer at the end.
\<close>

theorem C1_two_page_document:
  "extract_questions_with_year
     [Some ''Q. 1) What is CAPM? [4]'', Some ''Q. 2) Explain ruin theory. **********''] =
   Inr [\<lparr>question_number = 1, question_preview = ''What is CAPM? [4]'',
          complete_content = ''Q. 1) What is CAPM? [4]'' @ NL # ''--- PAGE 2 ---'',
          marks = ''Unknown'', chapter = None, year = ''Unknown'', page = 1\<rparr>,
        \<lparr>question_number = 2, question_preview = ''Explain ruin theory.'',
          complete_content = ''Q. 2) Explain ruin theory.'',
          marks = ''Unknown'', chapter = None, year = ''Unknown'', page = 2\<rparr>]"
  by code_simp

text \<open>
  Claim C2. In the one-page document \<^verbatim>\<open>Q. 2) Explain ruin theory. Q. 1) What is the CAPM? [4]\<close>
  the marker of question 2 comes before the marker of question 1. Both markers are found,
  but there is one record only: after sorting, the span of question 1 runs from its marker
  back to the marker of question 2 and is empty, and question 2 takes the text of both.
\<close>

theorem C2_markers_out_of_order:
  "scan_positions [Some ''Q. 2) Explain ruin theory. Q. 1) What is the CAPM? [4]''] =
     Inr [\<lparr>number = 2, start = 16, page_num = 1\<rparr>, \<lparr>number = 1, start = 43, page_num = 1\<rparr>] \<and>
   extract_questions_with_year [Some ''Q. 2) Explain ruin theory. Q. 1) What is the CAPM? [4]''] =
     Inr [\<lparr>question_number = 2,
           question_preview = ''Explain ruin theory.  What is the CAPM? [4]'',
           complete_content = ''Q. 2) Explain ruin theory. Q. 1) What is the CAPM? [4]'',
           marks = ''4'', chapter = None, year = ''Unknown'', page = 1\<rparr>]"
  by code_simp

text \<open>
  Claim C6. A question that is followed by a question at the top of the next page keeps
  the page marker of that page as the last line of its content.
\<close>

theorem C6_page_marker_remains:
  "extract_questions_with_year
     [Some ''Q. 1) Define the efficient frontier.'', Some ''Q. 2) Explain ruin theory now.''] =
   Inr [\<lparr>question_number = 1, question_preview = ''Define the efficient frontier.'',
          complete_content = ''Q. 1) Define the efficient frontier.'' @ NL # ''--- PAGE 2 ---'',
          marks = ''Unknown'', chapter = None, year = ''Unknown'', page = 1\<rparr>,
        \<lparr>question_number = 2, question_preview = ''Explain ruin theory now.'',
          complete_content = ''Q. 2) Explain ruin theory now.'',
          marks = ''Unknown'', chapter = None, year = ''Unknown'', page = 2\<rparr>]"
  by code_simp

section \<open>The year of a document\<close>

text \<open>
  Claim C3. The year of a document is computed once, from the whole concatenated text:
  it is the one the four patterns give in their listed order, the first pattern with a
  match anywhere deciding (its second group for the day-month-year form, its last group
  for the others), and \<^verbatim>\<open>Unknown\<close> when none matches; this step never fails. Whatever list
  of records the extraction returns, every record in it carries that year. The search is
  without regard to case: a text that differs from the document's only in the case of its
  letters gives the same year.
\<close>

theorem C3_year_once_per_document:
  "(\<exists>cy. infer_year year_patterns (all_text_of pages) = Inr cy \<and>
         year_or_unknown cy = year_spec (all_text_of pages)) \<and>
   (\<forall>rs. extract_questions_with_year pages = Inr rs \<longrightarrow>
         (\<forall>r \<in> set rs. year r = year_spec (all_text_of pages))) \<and>
   (\<forall>t. lower t = lower (all_text_of pages) \<longrightarrow>
         year_spec t = year_spec (all_text_of pages))"
proof -
  have a: "\<exists>cy. infer_year year_patterns (all_text_of pages) = Inr cy \<and>
         year_or_unknown cy = year_spec (all_text_of pages)"
    using infer_year_spec by blast
  have b: "\<forall>r \<in> set rs. year r = year_spec (all_text_of pages)"
    if e: "extract_questions_with_year pages = Inr rs" for rs
  proof -
    from extract_Inr[OF e] obtain found cy where
      y: "year_or_unknown cy = year_spec (all_text_of pages)" and
      m: "list_all2 (made_by (all_text_of pages) cy (sort_key number found))
            (filter (\<lambda>i. 20 < length (content_of (all_text_of pages) (sort_key number found) i))
               [0 ..< length found]) rs"
      by blast
    show ?thesis using m by (rule list_all2_right) (simp add: made_by_def y)
  qed
  have c: "\<forall>t. lower t = lower (all_text_of pages) \<longrightarrow>
               year_spec t = year_spec (all_text_of pages)"
    using year_spec_case_insensitive by blast
  from a b c show ?thesis by blast
qed

text \<open>
  A document of two pages with \<^verbatim>\<open>Year: 2021\<close> before \<^verbatim>\<open>3rd May 2024\<close>: the day-month-year
  form comes first in the list, so both records get 2024, and the text in lower case gives
  the same year.
\<close>

theorem C3_witness:
  "extract_questions_with_year
     [Some ''Q. 1) Year: 2021, 3rd May 2024.'', Some ''Q. 2) Define the CAPM model.''] =
   Inr [\<lparr>question_number = 1, question_preview = ''Year: 2021, 3rd May 2024.'',
          complete_content = ''Q. 1) Year: 2021, 3rd May 2024.'' @ NL # ''--- PAGE 2 ---'',
          marks = ''Unknown'', chapter = None, year = ''2024'', page = 1\<rparr>,
        \<lparr>question_number = 2, question_preview = ''Define the CAPM model.'',
          complete_content = ''Q. 2) Define the CAPM model.'',
          marks = ''Unknown'', chapter = None, year = ''2024'', page = 2\<rparr>] \<and>
   year_spec (all_text_of
     [Some ''Q. 1) Year: 2021, 3rd May 2024.'', Some ''Q. 2) Define the CAPM model.'']) = ''2024'' \<and>
   year_spec (lower (all_text_of
     [Some ''Q. 1) Year: 2021, 3rd May 2024.'', Some ''Q. 2) Define the CAPM model.''])) = ''2024''"
proof -
  let ?P = "[Some ''Q. 1) Year: 2021, 3rd May 2024.'', Some ''Q. 2) Define the CAPM model.'']"
  let ?r1 = "\<lparr>question_number = 1, question_preview = ''Year: 2021, 3rd May 2024.'',
          complete_content = ''Q. 1) Year: 2021, 3rd May 2024.'' @ NL # ''--- PAGE 2 ---'',
          marks = ''Unknown'', chapter = None, year = ''2024'', page = 1\<rparr>"
  let ?r2 = "\<lparr>question_number = 2, question_preview = ''Define the CAPM model.'',
          complete_content = ''Q. 2) Define the CAPM model.'',
          marks = ''Unknown'', chapter = None, year = ''2024'', page = 2\<rparr>"
  have e: "extract_questions_with_year ?P = Inr [?r1, ?r2]" by code_simp
  from C3_year_once_per_document[of ?P] have
    rs: "\<forall>rs. extract_questions_with_year ?P = Inr rs \<longrightarrow>
           (\<forall>r \<in> set rs. year r = year_spec (all_text_of ?P))" and
    lo: "\<forall>t. lower t = lower (all_text_of ?P) \<longrightarrow> year_spec t = year_spec (all_text_of ?P)"
    by blast+
  from rs e have "\<forall>r \<in> set [?r1, ?r2]. year r = year_spec (all_text_of ?P)" by blast
  then have y: "year_spec (all_text_of ?P) = ''2024''" by simp
  have "year_spec (lower (all_text_of ?P)) = year_spec (all_text_of ?P)"
    using lo lower_lower by blast
  then show ?thesis using e y by simp
qed

section \<open>The page of a question\<close>

text \<open>
  Claim C4. The offsets recorded for the pages increase strictly, and the page of every
  marker that the scan finds is the page recorded at the greatest offset that is not after
  the marker's start. Whenever the extraction returns, its records are, in order, the ones
  of the sorted markers whose cleaned content is longer than 20 characters, one record for
  each such marker and no other; the record has the number and the content of its marker,
  and its page is the page that owns the position where that marker starts.
\<close>

theorem C4_page_of_marker:
  assumes "extract_questions_with_year pages = Inr rs"
  shows "\<exists>found.
     scan_positions pages = Inr found \<and>
     sorted_wrt (<) (map fst (page_breaks_of pages)) \<and>
     (\<forall>m \<in> set found. owner (page_breaks_of pages) (start m) (page_num m)) \<and>
     list_all2
       (\<lambda>i r. question_number r = number (sort_key number found ! i) \<and>
              complete_content r = content_of (all_text_of pages) (sort_key number found) i \<and>
              page r = page_num (sort_key number found ! i) \<and>
              owner (page_breaks_of pages) (start (sort_key number found ! i)) (page r))
       (filter (\<lambda>i. 20 < length (content_of (all_text_of pages) (sort_key number found) i))
          [0 ..< length found])
       rs"
proof -
  let ?t = "all_text_of pages" and ?pbs = "page_breaks_of pages"
  from extract_Inr[OF assms] obtain found cy where
    f: "scan_positions pages = Inr found" and
    a: "list_all2 (made_by ?t cy (sort_key number found))
          (filter (\<lambda>i. 20 < length (content_of ?t (sort_key number found) i))
             [0 ..< length found]) rs"
    by blast
  let ?ms = "re_finditer False question_pattern ?t"
  have st: "map start found = map m_start ?ms" using f by (rule scan_positions_Inr(2))
  have pg: "map page_num found = map (\<lambda>m. find_page ?pbs (m_start m) 1) ?ms"
    using f by (rule scan_positions_Inr(3))
  have ok: "breaks_ok ?t ?pbs" by (rule document_breaks_ok)
  then have so: "sorted_wrt (<) (map fst ?pbs)" by (simp add: breaks_ok_def)
  have own: "\<forall>m \<in> set found. owner ?pbs (start m) (page_num m)"
  proof
    fix m assume m: "m \<in> set found"
    then obtain i where i: "i < length found" "found ! i = m" by (auto simp: in_set_conv_nth)
    have len: "length ?ms = length found" using st by (metis length_map)
    have "start m = m_start (?ms ! i)" using st i len by (metis nth_map)
    moreover have "page_num m = find_page ?pbs (m_start (?ms ! i)) 1"
      using pg i len by (metis (no_types, lifting) nth_map)
    moreover have "?t \<noteq> []"
    proof
      assume "?t = []"
      then have "?ms = []" unfolding re_finditer_def by (simp only: finditer_empty)
      then show False using len i by simp
    qed
    then obtain v0 where "(0, v0) \<in> set ?pbs" using ok by (auto simp: breaks_ok_def)
    ultimately show "owner ?pbs (start m) (page_num m)"
      using find_page_owner[OF so] by simp
  qed
  let ?qps = "sort_key number found"
  let ?idx = "filter (\<lambda>i. 20 < length (content_of ?t ?qps i)) [0 ..< length found]"
  have "list_all2
       (\<lambda>i r. question_number r = number (?qps ! i) \<and>
              complete_content r = content_of ?t ?qps i \<and>
              page r = page_num (?qps ! i) \<and>
              owner ?pbs (start (?qps ! i)) (page r)) ?idx rs"
  proof (rule list_all2_mono_set[OF a])
    fix i r
    assume i: "i \<in> set ?idx" and mb: "made_by ?t cy ?qps i r"
    from i have "i < length ?qps" by simp
    then have "?qps ! i \<in> set found" by (metis nth_mem set_sort)
    then have "owner ?pbs (start (?qps ! i)) (page_num (?qps ! i))" using own by blast
    then show "question_number r = number (?qps ! i) \<and>
              complete_content r = content_of ?t ?qps i \<and>
              page r = page_num (?qps ! i) \<and>
              owner ?pbs (start (?qps ! i)) (page r)"
      using mb by (simp add: made_by_def)
  qed
  with f so own show ?thesis by blast
qed

text \<open>
  Two pages with one question each: the offsets are 0 and 52, the markers start at 16 and
  68, and the two records are on pages 1 and 2.
\<close>

theorem C4_witness:
  "extract_questions_with_year
     [Some ''Q. 1) Define the efficient frontier.'', Some ''Q. 2) Explain ruin theory now.''] =
   Inr [\<lparr>question_number = 1, question_preview = ''Define the efficient frontier.'',
          complete_content = ''Q. 1) Define the efficient frontier.'' @ NL # ''--- PAGE 2 ---'',
          marks = ''Unknown'', chapter = None, year = ''Unknown'', page = 1\<rparr>,
        \<lparr>question_number = 2, question_preview = ''Explain ruin theory now.'',
          complete_content = ''Q. 2) Explain ruin theory now.'',
          marks = ''Unknown'', chapter = None, year = ''Unknown'', page = 2\<rparr>] \<and>
   scan_positions
     [Some ''Q. 1) Define the efficient frontier.'', Some ''Q. 2) Explain ruin theory now.''] =
   Inr [\<lparr>number = 1, start = 16, page_num = 1\<rparr>, \<lparr>number = 2, start = 68, page_num = 2\<rparr>] \<and>
   page_breaks_of
     [Some ''Q. 1) Define the efficient frontier.'', Some ''Q. 2) Explain ruin theory now.''] =
   [(0, 1), (52, 2)] \<and>
   owner [(0, 1), (52, 2)] 16 1 \<and> owner [(0, 1), (52, 2)] 68 2"
proof -
  let ?P = "[Some ''Q. 1) Define the efficient frontier.'', Some ''Q. 2) Explain ruin theory now.'']"
  let ?r1 = "\<lparr>question_number = 1, question_preview = ''Define the efficient frontier.'',
          complete_content = ''Q. 1) Define the efficient frontier.'' @ NL # ''--- PAGE 2 ---'',
          marks = ''Unknown'', chapter = None, year = ''Unknown'', page = 1\<rparr>"
  let ?r2 = "\<lparr>question_number = 2, question_preview = ''Explain ruin theory now.'',
          complete_content = ''Q. 2) Explain ruin theory now.'',
          marks = ''Unknown'', chapter = None, year = ''Unknown'', page = 2\<rparr>"
  let ?m1 = "\<lparr>number = 1, start = 16, page_num = 1\<rparr>"
  let ?m2 = "\<lparr>number = 2, start = 68, page_num = 2\<rparr>"
  let ?f = "[?m1, ?m2]"
  have e: "extract_questions_with_year ?P = Inr [?r1, ?r2]" by code_simp
  have s: "scan_positions ?P = Inr ?f" by code_simp
  have b: "page_breaks_of ?P = [(0, 1), (52, 2)]" by code_simp
  have q: "sort_key number ?f = ?f" by code_simp
  have l0: "20 < length (content_of (all_text_of ?P) ?f 0)" by code_simp
  have l1: "20 < length (content_of (all_text_of ?P) ?f (Suc 0))" by code_simp
  have idx: "filter (\<lambda>i. 20 < length (content_of (all_text_of ?P) ?f i)) [0 ..< length ?f] =
             [0, Suc 0]"
    using l0 l1 by (simp add: upt_rec)
  from C4_page_of_marker[OF e] obtain found where
    f: "scan_positions ?P = Inr found" and
    r: "list_all2
       (\<lambda>i r. question_number r = number (sort_key number found ! i) \<and>
              complete_content r = content_of (all_text_of ?P) (sort_key number found) i \<and>
              page r = page_num (sort_key number found ! i) \<and>
              owner (page_breaks_of ?P) (start (sort_key number found ! i)) (page r))
       (filter (\<lambda>i. 20 < length (content_of (all_text_of ?P) (sort_key number found) i))
          [0 ..< length found])
       [?r1, ?r2]"
    by blast
  have "found = ?f" using s f by simp
  then have "list_all2
       (\<lambda>i r. question_number r = number (?f ! i) \<and>
              complete_content r = content_of (all_text_of ?P) ?f i \<and>
              page r = page_num (?f ! i) \<and>
              owner (page_breaks_of ?P) (start (?f ! i)) (page r))
       [0, Suc 0] [?r1, ?r2]"
    using r unfolding q idx by (simp only: q idx)
  then have "owner (page_breaks_of ?P) 16 1 \<and> owner (page_breaks_of ?P) 68 2" by simp
  then show ?thesis using e s unfolding b by simp
qed

section \<open>Markers with the same number\<close>

text \<open>
  Claim C5. On the page
  \<^verbatim>\<open>Q. 5) First question, on pricing. Q. 6) Middle question, on options. Q. 5) Second question, on ruin.\<close>
  the scan finds the three markers, and the sort puts the two numbered 5 first, in the
  order of the scan, and the one numbered 6 last. The content of the second \<^verbatim>\<open>Q. 5)\<close>,
  which starts at 85, is then cut at the start of the marker that follows it in sorted
  order, \<^verbatim>\<open>Q. 6)\<close> at 50: it is empty, and the marker gets no record. The extraction
  returns one record numbered 5, not two; the text of the second \<^verbatim>\<open>Q. 5)\<close> ends up in the
  record numbered 6.
\<close>

theorem C5_duplicate_lost:
  "scan_positions
     [Some ''Q. 5) First question, on pricing. Q. 6) Middle question, on options. Q. 5) Second question, on ruin.''] =
   Inr [\<lparr>number = 5, start = 16, page_num = 1\<rparr>, \<lparr>number = 6, start = 50, page_num = 1\<rparr>,
        \<lparr>number = 5, start = 85, page_num = 1\<rparr>] \<and>
   sort_key number
     [\<lparr>number = 5, start = 16, page_num = 1\<rparr>, \<lparr>number = 6, start = 50, page_num = 1\<rparr>,
      \<lparr>number = 5, start = 85, page_num = 1\<rparr>] =
     [\<lparr>number = 5, start = 16, page_num = 1\<rparr>, \<lparr>number = 5, start = 85, page_num = 1\<rparr>,
      \<lparr>number = 6, start = 50, page_num = 1\<rparr>] \<and>
   content_of (all_text_of
     [Some ''Q. 5) First question, on pricing. Q. 6) Middle question, on options. Q. 5) Second question, on ruin.''])
     [\<lparr>number = 5, start = 16, page_num = 1\<rparr>, \<lparr>number = 5, start = 85, page_num = 1\<rparr>,
      \<lparr>number = 6, start = 50, page_num = 1\<rparr>] (Suc 0) = [] \<and>
   extract_questions_with_year
     [Some ''Q. 5) First question, on pricing. Q. 6) Middle question, on options. Q. 5) Second question, on ruin.''] =
   Inr [\<lparr>question_number = 5,
          question_preview = ''First question, on pricing.  Middle question, on options.'',
          complete_content = ''Q. 5) First question, on pricing. Q. 6) Middle question, on options.'',
          marks = ''Unknown'', chapter = None, year = ''Unknown'', page = 1\<rparr>,
        \<lparr>question_number = 6,
          question_preview = ''Middle question, on options.  Second question, on ruin.'',
          complete_content = ''Q. 6) Middle question, on options. Q. 5) Second question, on ruin.'',
          marks = ''Unknown'', chapter = None, year = ''Unknown'', page = 1\<rparr>]"
  by code_simp

section \<open>The preview\<close>

text \<open>
  Claim C7, as stated, fails: a line of 151 characters after the marker gives a preview of
  153 characters, its first 150 characters and the three dots.
\<close>

theorem C7_preview_longer_than_150:
  "extract_questions_with_year [Some (''Q. 1) '' @ replicate 151 CHR ''a'')] =
     Inr [\<lparr>question_number = 1,
           question_preview = replicate 150 CHR ''a'' @ ''...'',
           complete_content = ''Q. 1) '' @ replicate 151 CHR ''a'',
           marks = ''Unknown'', chapter = None, year = ''Unknown'', page = 1\<rparr>] \<and>
   length (replicate 150 CHR ''a'' @ ''...'') = 153"
  by code_simp

text \<open>
  Claim C7, amended. The preview of every record is at most 153 characters long. For a
  record whose content lines hold no \<^verbatim>\<open>Q. <number>)\<close> fragment other than a leading one,
  the preview is cut from the first line whose form, with a leading fragment stripped and
  trimmed, is longer than 10 characters, taken in that form, or from the first line as it
  is when no line qualifies: it is that text when the text has at most 150 characters, and
  otherwise its first 150 characters followed by three dots.
\<close>

theorem C7_preview:
  assumes "extract_questions_with_year pages = Inr rs" and "r \<in> set rs"
  shows "length (question_preview r) \<le> 153 \<and>
         (leading_only (complete_content r) \<longrightarrow>
            question_preview r =
              (if 150 < length (chosen_line (complete_content r))
               then take 150 (chosen_line (complete_content r)) @ ''...''
               else chosen_line (complete_content r)))"
proof -
  let ?t = "all_text_of pages"
  from extract_Inr[OF assms(1)] obtain found cy where
    a: "list_all2 (made_by ?t cy (sort_key number found))
          (filter (\<lambda>i. 20 < length (content_of ?t (sort_key number found) i))
             [0 ..< length found]) rs"
    by blast
  have "\<forall>r \<in> set rs. question_preview r = shorten (preview_text (complete_content r))"
    using a by (rule list_all2_right) (simp add: made_by_def)
  then have p: "question_preview r = shorten (preview_text (complete_content r))"
    using assms(2) by blast
  have "length (question_preview r) \<le> 153" unfolding p by (rule shorten_length)
  moreover have "question_preview r =
              (if 150 < length (chosen_line (complete_content r))
               then take 150 (chosen_line (complete_content r)) @ ''...''
               else chosen_line (complete_content r))"
    if "leading_only (complete_content r)"
    unfolding p preview_text_chosen[OF that] by (simp add: shorten_def)
  ultimately show ?thesis by blast
qed

text \<open>
  A record whose first line is the marker alone: the preview is the second line.
\<close>

theorem C7_witness:
  "extract_questions_with_year [Some (''Q. 7) Q. 8)'' @ NL # ''State the CAPM formula.'')] =
     Inr [\<lparr>question_number = 8, question_preview = ''State the CAPM formula.'',
           complete_content = ''Q. 8)'' @ NL # ''State the CAPM formula.'',
           marks = ''Unknown'', chapter = None, year = ''Unknown'', page = 1\<rparr>] \<and>
   leading_only (''Q. 8)'' @ NL # ''State the CAPM formula.'') \<and>
   chosen_line (''Q. 8)'' @ NL # ''State the CAPM formula.'') = ''State the CAPM formula.'' \<and>
   ''State the CAPM formula.'' =
     (if 150 < length (chosen_line (''Q. 8)'' @ NL # ''State the CAPM formula.''))
      then take 150 (chosen_line (''Q. 8)'' @ NL # ''State the CAPM formula.'')) @ ''...''
      else chosen_line (''Q. 8)'' @ NL # ''State the CAPM formula.''))"
proof -
  let ?P = "[Some (''Q. 7) Q. 8)'' @ NL # ''State the CAPM formula.'')]"
  let ?c = "''Q. 8)'' @ NL # ''State the CAPM formula.''"
  let ?r = "\<lparr>question_number = 8, question_preview = ''State the CAPM formula.'',
           complete_content = ?c,
           marks = ''Unknown'', chapter = None, year = ''Unknown'', page = 1\<rparr>"
  have e: "extract_questions_with_year ?P = Inr [?r]" by code_simp
  have l: "leading_only ?c" by code_simp
  have c: "chosen_line ?c = ''State the CAPM formula.''" by code_simp
  have "?r \<in> set [?r]" by simp
  from C7_preview[OF e this]
  have "leading_only (complete_content ?r) \<longrightarrow>
          question_preview ?r =
            (if 150 < length (chosen_line (complete_content ?r))
             then take 150 (chosen_line (complete_content ?r)) @ ''...''
             else chosen_line (complete_content ?r))" by blast
  then have "leading_only ?c \<longrightarrow> ''State the CAPM formula.'' =
     (if 150 < length (chosen_line ?c) then take 150 (chosen_line ?c) @ ''...''
      else chosen_line ?c)"
    by (simp only: question.simps)
  then show ?thesis using e l c by blast
qed

section \<open>Short spans\<close>

text \<open>
  Claim C8, as stated, fails: the conversion of a marker's digits raises \<open>ValueError\<close> when
  there are more than 4300 of them, and nothing in the extraction catches it. On the page
  \<^verbatim>\<open>Q. 2) b ********** Q. 0...01)\<close>, with 4300 zeros, the scan finds the two markers, at 16
  and 35; with the second numbered 1 and so sorted first, its span is empty and the span
  of the other is \<^verbatim>\<open>Q. 2) b\<close>, both of at most 20 characters; and the extraction ends in
  the error instead of returning the empty list.
\<close>

theorem C8_long_marker_raises:
  "extract_questions_with_year
     [Some (''Q. 2) b ********** Q. '' @ replicate 4300 CHR ''0'' @ ''1)'')] = Inl ValueError \<and>
   map m_start (re_finditer False question_pattern (all_text_of
     [Some (''Q. 2) b ********** Q. '' @ replicate 4300 CHR ''0'' @ ''1)'')])) = [16, 35] \<and>
   content_of (all_text_of
     [Some (''Q. 2) b ********** Q. '' @ replicate 4300 CHR ''0'' @ ''1)'')])
     [\<lparr>number = 1, start = 35, page_num = 1\<rparr>, \<lparr>number = 2, start = 16, page_num = 1\<rparr>] 0 = [] \<and>
   content_of (all_text_of
     [Some (''Q. 2) b ********** Q. '' @ replicate 4300 CHR ''0'' @ ''1)'')])
     [\<lparr>number = 1, start = 35, page_num = 1\<rparr>, \<lparr>number = 2, start = 16, page_num = 1\<rparr>] (Suc 0) =
     ''Q. 2) b''"
proof -
  define ds where "ds = replicate 4300 CHR ''0'' @ ''1''"
  have ne: "ds \<noteq> []" by (simp add: ds_def)
  have "is_digit CHR ''0''" "is_digit CHR ''1''" by (simp_all add: is_digit_def)
  then have dg: "list_all is_digit ds" by (simp add: ds_def list_all_iff)
  have lg: "int_max_str_digits < length ds" by (simp add: ds_def int_max_str_digits_def)
  have p: "''Q. 2) b ********** Q. '' @ replicate 4300 CHR ''0'' @ ''1)'' =
           ''Q. 2) b ********** Q. '' @ ds @ '')''"
    by (simp add: ds_def)
  show ?thesis
    unfolding p long_marker_text
    using long_marker_raises[OF ne dg lg] two_markers_found[OF ne dg]
          long_marker_spans[of ds]
    by (simp only: long_marker_text list.map rmatch.simps simp_thms)
qed

text \<open>
  Claim C8, amended. The extraction returns exactly when no marker that the scan finds has
  more than 4300 digits, and the only error it can end in is the \<open>ValueError\<close> of the
  conversion. Whenever it returns, the contents of the records are exactly the cleaned
  contents of the sorted markers that are longer than 20 characters, in order, so a
  marker whose cleaned content has at most 20 characters gets no record; and when every
  marker is like that, or there is no marker, the result is the empty list.
\<close>

theorem C8_short_spans_dropped:
  "((\<exists>rs. extract_questions_with_year pages = Inr rs) \<longleftrightarrow>
      list_all (\<lambda>m. length (marker_digits (all_text_of pages) m) \<le> int_max_str_digits)
        (re_finditer False question_pattern (all_text_of pages))) \<and>
   (\<forall>e. extract_questions_with_year pages = Inl e \<longrightarrow> e = ValueError) \<and>
   (\<forall>rs. extract_questions_with_year pages = Inr rs \<longrightarrow>
      (\<exists>found.
         scan_positions pages = Inr found \<and>
         map complete_content rs =
           filter (\<lambda>content. 20 < length content)
             (map (content_of (all_text_of pages) (sort_key number found))
                [0 ..< length found]) \<and>
         ((\<forall>i < length found.
             length (content_of (all_text_of pages) (sort_key number found) i) \<le> 20)
          \<longrightarrow> rs = [])))"
proof -
  let ?t = "all_text_of pages"
  have a: "(\<exists>rs. extract_questions_with_year pages = Inr rs) \<longleftrightarrow>
      list_all (\<lambda>m. length (marker_digits ?t m) \<le> int_max_str_digits)
        (re_finditer False question_pattern ?t)"
    by (rule extract_returns_iff)
  have b: "e = ValueError" if "extract_questions_with_year pages = Inl e" for e
  proof -
    from that have "scan_positions pages = Inl e" by (simp add: extract_Inl_iff)
    then show ?thesis by (rule scan_positions_Inl(1))
  qed
  have c: "\<exists>found.
         scan_positions pages = Inr found \<and>
         map complete_content rs =
           filter (\<lambda>content. 20 < length content)
             (map (content_of ?t (sort_key number found)) [0 ..< length found]) \<and>
         ((\<forall>i < length found. length (content_of ?t (sort_key number found) i) \<le> 20)
          \<longrightarrow> rs = [])"
    if e: "extract_questions_with_year pages = Inr rs" for rs
  proof -
    from extract_Inr[OF e] obtain found cy where
      f: "scan_positions pages = Inr found" and
      m: "list_all2 (made_by ?t cy (sort_key number found))
            (filter (\<lambda>i. 20 < length (content_of ?t (sort_key number found) i))
               [0 ..< length found]) rs"
      by blast
    let ?qps = "sort_key number found"
    let ?long = "\<lambda>i. 20 < length (content_of ?t ?qps i)"
    have "map complete_content rs = map (content_of ?t ?qps) (filter ?long [0 ..< length found])"
      using m by (rule list_all2_map_eq) (simp add: made_by_def)
    also have "\<dots> = filter (\<lambda>content. 20 < length content)
                       (map (content_of ?t ?qps) [0 ..< length found])"
      by (simp add: filter_map comp_def)
    finally have k: "map complete_content rs =
         filter (\<lambda>content. 20 < length content) (map (content_of ?t ?qps) [0 ..< length found])" .
    have "rs = []" if "\<forall>i < length found. length (content_of ?t ?qps i) \<le> 20"
    proof -
      have "filter ?long [0 ..< length found] = []" using that by (auto simp: filter_empty_conv)
      then show ?thesis using m by simp
    qed
    then show ?thesis using f k by blast
  qed
  from a b c show ?thesis by blast
qed

text \<open>A page with two markers whose contents are both short.\<close>

theorem C8_witness:
  "extract_questions_with_year [None, Some ''Q. 1) Short Q. 2) Brief''] = Inr [] \<and>
   list_all (\<lambda>m. length (marker_digits (all_text_of [None, Some ''Q. 1) Short Q. 2) Brief'']) m)
                   \<le> int_max_str_digits)
     (re_finditer False question_pattern (all_text_of [None, Some ''Q. 1) Short Q. 2) Brief''])) \<and>
   scan_positions [None, Some ''Q. 1) Short Q. 2) Brief''] =
     Inr [\<lparr>number = 1, start = 16, page_num = 2\<rparr>, \<lparr>number = 2, start = 28, page_num = 2\<rparr>] \<and>
   length (content_of (all_text_of [None, Some ''Q. 1) Short Q. 2) Brief''])
     (sort_key number [\<lparr>number = 1, start = 16, page_num = 2\<rparr>,
                       \<lparr>number = 2, start = 28, page_num = 2\<rparr>]) 0) \<le> 20 \<and>
   length (content_of (all_text_of [None, Some ''Q. 1) Short Q. 2) Brief''])
     (sort_key number [\<lparr>number = 1, start = 16, page_num = 2\<rparr>,
                       \<lparr>number = 2, start = 28, page_num = 2\<rparr>]) (Suc 0)) \<le> 20"
proof -
  let ?P = "[None, Some ''Q. 1) Short Q. 2) Brief'']"
  let ?f = "[\<lparr>number = 1, start = 16, page_num = 2\<rparr>, \<lparr>number = 2, start = 28, page_num = 2\<rparr>]"
  have s: "scan_positions ?P = Inr ?f" by code_simp
  have l0: "length (content_of (all_text_of ?P) (sort_key number ?f) 0) \<le> 20" by code_simp
  have l1: "length (content_of (all_text_of ?P) (sort_key number ?f) (Suc 0)) \<le> 20" by code_simp
  have l: "\<forall>i < length ?f. length (content_of (all_text_of ?P) (sort_key number ?f) i) \<le> 20"
    using l0 l1 by (simp add: less_Suc_eq)
  have e: "extract_questions_with_year ?P = Inr []" by code_simp
  note th = C8_short_spans_dropped[of ?P]
  from th e have la:
    "list_all (\<lambda>m. length (marker_digits (all_text_of ?P) m) \<le> int_max_str_digits)
       (re_finditer False question_pattern (all_text_of ?P))" by blast
  from th e obtain found where
    f: "scan_positions ?P = Inr found" and
    i: "(\<forall>i < length found.
         length (content_of (all_text_of ?P) (sort_key number found) i) \<le> 20) \<longrightarrow>
        ([]::question list) = []"
    by blast
  have "found = ?f" using s f by simp
  then have "\<forall>i < length found.
         length (content_of (all_text_of ?P) (sort_key number found) i) \<le> 20"
    using l by simp
  then show ?thesis using s l0 l1 e la by blast
qed

section \<open>Bulk assignment\<close>

text \<open>
  Claim C9. Bulk assignment keeps the number and the order of the records and changes no
  field but \<open>chapter\<close>. The chapter of a record becomes the label of the first entry of
  the mapping, in the mapping's order, that has a keyword occurring in the preview without
  regard to case; when no entry has one, the chapter stays as it was.
\<close>

theorem C9_bulk_assign:
  "length (bulk_assign_by_keywords qs km) = length qs \<and>
   (\<forall>i < length qs.
      (bulk_assign_by_keywords qs km ! i)\<lparr>chapter := None\<rparr> = (qs ! i)\<lparr>chapter := None\<rparr> \<and>
      chapter (bulk_assign_by_keywords qs km ! i) =
        (case find (keyword_match (question_preview (qs ! i))) km of
           None \<Rightarrow> chapter (qs ! i)
         | Some entry \<Rightarrow> Some (fst entry)))"
  by (auto simp: bulk_assign_map assign_chapter_find split: option.splits)

text \<open>
  Two records under a mapping whose two entries both match the first preview: the first
  entry wins, and the second record, which nothing matches, keeps its chapter.
\<close>

theorem C9_bulk_assign_witness:
  "(0::nat) < length [\<lparr>question_number = 1, question_preview = ''Explain the CAPM model'',
                        complete_content = ''Q. 1) Explain the CAPM model'', marks = ''4'',
                        chapter = None, year = ''2024'', page = 1\<rparr>,
                      \<lparr>question_number = 2, question_preview = ''State the ruin theorem'',
                        complete_content = ''Q. 2) State the ruin theorem'', marks = ''Unknown'',
                        chapter = Some ''Manual'', year = ''2024'', page = 2\<rparr>] \<and>
   map chapter (bulk_assign_by_keywords
     [\<lparr>question_number = 1, question_preview = ''Explain the CAPM model'',
        complete_content = ''Q. 1) Explain the CAPM model'', marks = ''4'',
        chapter = None, year = ''2024'', page = 1\<rparr>,
      \<lparr>question_number = 2, question_preview = ''State the ruin theorem'',
        complete_content = ''Q. 2) State the ruin theorem'', marks = ''Unknown'',
        chapter = Some ''Manual'', year = ''2024'', page = 2\<rparr>]
     [(''Pricing'', [''capm'']), (''Models'', [''Model'', ''option''])]) =
   [Some ''Pricing'', Some ''Manual'']"
proof -
  let ?q1 = "\<lparr>question_number = 1, question_preview = ''Explain the CAPM model'',
               complete_content = ''Q. 1) Explain the CAPM model'', marks = ''4'',
               chapter = None, year = ''2024'', page = 1\<rparr>"
  let ?q2 = "\<lparr>question_number = 2, question_preview = ''State the ruin theorem'',
               complete_content = ''Q. 2) State the ruin theorem'', marks = ''Unknown'',
               chapter = Some ''Manual'', year = ''2024'', page = 2\<rparr>"
  let ?km = "[(''Pricing'', [''capm'']), (''Models'', [''Model'', ''option''])]"
  let ?out = "bulk_assign_by_keywords [?q1, ?q2] ?km"
  have f1: "find (keyword_match (question_preview ?q1)) ?km = Some (''Pricing'', [''capm''])"
    by code_simp
  have f2: "find (keyword_match (question_preview ?q2)) ?km = None"
    by code_simp
  from C9_bulk_assign[of "[?q1, ?q2]" ?km]
  have len: "length ?out = 2"
   and c: "\<And>i. i < 2 \<Longrightarrow> chapter (?out ! i) =
        (case find (keyword_match (question_preview ([?q1, ?q2] ! i))) ?km of
           None \<Rightarrow> chapter ([?q1, ?q2] ! i)
         | Some entry \<Rightarrow> Some (fst entry))"
    by simp_all
  have "chapter (?out ! 0) = Some ''Pricing''" using c[of 0] f1 by simp
  moreover have "chapter (?out ! 1) = Some ''Manual''" using c[of 1] f2 by simp
  ultimately have "map chapter ?out = [Some ''Pricing'', Some ''Manual'']"
    using len by (simp add: list_eq_iff_nth_eq less_Suc_eq numeral_2_eq_2)
  then show ?thesis by simp
qed

section \<open>The labelled year patterns\<close>

text \<open>
  Claim C10. Whenever the third pattern (\<^verbatim>\<open>Year: 20xx\<close>) or the fourth
  (\<^verbatim>\<open>Session: 20xx\<close>) matches the text, the second (a bare year) matches it too, so the
  loop never gets past the second pattern with a match still to come: the loop over the
  first two patterns gives the same result as the loop over all four, on every text.
\<close>

theorem C10_labelled_patterns_unreachable:
  "(\<forall>k \<in> {2, 3}. re_search True (snd (year_patterns ! k)) t \<noteq> None \<longrightarrow>
                   re_search True (snd (year_patterns ! 1)) t \<noteq> None) \<and>
   infer_year (take 2 year_patterns) t = infer_year year_patterns t"
proof -
  let ?p1 = "dmy_head @ year_tail" and ?p2 = "year_tail"
  and ?p3 = "label_head ''Year'' @ year_tail" and ?p4 = "label_head ''Session'' @ year_tail"
  obtain s1 s2 s3 s4 where
    yp: "year_patterns = [(s1, ?p1), (s2, ?p2), (s3, ?p3), (s4, ?p4)]"
    by (simp add: year_patterns_def)
  have t3: "re_search True ?p3 t \<noteq> None \<Longrightarrow> re_search True ?p2 t \<noteq> None"
   and t4: "re_search True ?p4 t \<noteq> None \<Longrightarrow> re_search True ?p2 t \<noteq> None"
    by (rule tail_search, assumption)+
  have a: "\<forall>k \<in> {2, 3}. re_search True (snd (year_patterns ! k)) t \<noteq> None \<longrightarrow>
                   re_search True (snd (year_patterns ! 1)) t \<noteq> None"
    using t3 t4 by (simp add: yp)
  have b: "infer_year (take 2 year_patterns) t = infer_year year_patterns t"
  proof (cases "re_search True ?p1 t")
    case Some
    then show ?thesis by (simp add: yp)
  next
    case n1: None
    show ?thesis
    proof (cases "re_search True ?p2 t")
      case Some
      then show ?thesis by (simp add: yp n1)
    next
      case n2: None
      then have "re_search True ?p3 t = None" "re_search True ?p4 t = None"
        using t3 t4 by blast+
      then show ?thesis by (simp add: yp n1 n2)
    qed
  qed
  from a b show ?thesis by blast
qed

text \<open>The text \<^verbatim>\<open>Year: 2024\<close>: the third pattern matches it, and so does the second.\<close>

theorem C10_witness:
  "re_search True (snd (year_patterns ! 2)) ''Year: 2024'' \<noteq> None \<and>
   re_search True (snd (year_patterns ! 1)) ''Year: 2024'' \<noteq> None \<and>
   infer_year (take 2 year_patterns) ''Year: 2024'' = Inr (Some ''2024'') \<and>
   infer_year year_patterns ''Year: 2024'' = Inr (Some ''2024'')"
proof -
  have m3: "re_search True (snd (year_patterns ! 2)) ''Year: 2024'' \<noteq> None" by code_simp
  have y: "infer_year year_patterns ''Year: 2024'' = Inr (Some ''2024'')" by code_simp
  from C10_labelled_patterns_unreachable[of "''Year: 2024''"] m3 y show ?thesis by simp
qed

end
